theory Spec2Isabelle
  imports Complex_Main "HOL-Library.Word" "HOL-Library.Monad_Syntax"
begin

section \<open>Machine types of the source\<close>

text \<open>
  \<^verbatim>\<open>Grid.cpp\<close> computes with two scalar types: \<^verbatim>\<open>uint\<close> (32-bit unsigned, every
  operation modulo \<open>2^32\<close>) and \<^verbatim>\<open>double\<close> (IEEE-754 binary64). Both are modelled with
  their machine behaviour, because several properties of the grid depend on wrap-around
  and on rounding.
\<close>

type_synonym uint = "32 word"

subsection \<open>IEEE-754 binary64\<close>

text \<open>
  A \<^verbatim>\<open>double\<close> is a NaN, a signed infinity, or a finite number given by its sign
  (\<open>True\<close> for negative) and its magnitude, an exact rational; \<open>Fin True 0\<close> is the negative
  zero. Every arithmetic operation computes the exact result and rounds it once, to the
  nearest representable number, ties to the even significand (the default rounding mode):
  53 bits of significand, least normal exponent \<open>-1022\<close> (below it the quantum stays
  \<open>2^-1074\<close>, the subnormal numbers), overflow to infinity from \<open>2^1024\<close> on.
  Each operation of the source is one operation of the model: a product and a sum are
  rounded one after the other, without a fused multiply-add and without extended
  precision.

  The type has more finite values than the machine format, since any rational can stand
  as a magnitude. Every operation returns a representable magnitude, the concrete inputs
  below are representable, and the general theorems hold for all values of the type.
\<close>

datatype double = NaN | Infty bool | Fin bool rat

function bit_length :: "int \<Rightarrow> int" where
  "bit_length n = (if n \<le> 0 then 0 else 1 + bit_length (n div 2))"
  by pat_completeness auto
termination
  by (relation "measure nat") auto

declare bit_length.simps [simp del]

text \<open>\<open>ilog2 q\<close> is the binary exponent of a positive rational: \<open>2^e \<le> q < 2^(e+1)\<close>.\<close>

definition ilog2 :: "rat \<Rightarrow> int" where
  "ilog2 q = (if 1 \<le> q then bit_length \<lfloor>q\<rfloor> - 1
              else - bit_length (\<lceil>1 / q\<rceil> - 1))"

definition round_half_even :: "rat \<Rightarrow> int" where
  "round_half_even x =
     (let f = \<lfloor>x\<rfloor>; r = x - of_int f
      in if r < 1 / 2 then f else if 1 / 2 < r then f + 1
         else if even f then f else f + 1)"

text \<open>Rounding of a magnitude; \<open>None\<close> is overflow.\<close>

definition round_mag :: "rat \<Rightarrow> rat option" where
  "round_mag q =
     (if q = 0 then Some 0
      else let e = max (ilog2 q) (- 1022);
               u = power_int 2 (e - 52);
               r = of_int (round_half_even (q / u)) * u
           in if 2 ^ 1024 \<le> r then None else Some r)"

definition rnd :: "bool \<Rightarrow> rat \<Rightarrow> double" where
  "rnd s q = (case round_mag q of None \<Rightarrow> Infty s | Some r \<Rightarrow> Fin s r)"

definition sval :: "bool \<Rightarrow> rat \<Rightarrow> rat" where
  "sval s q = (if s then - q else q)"

fun fadd :: "double \<Rightarrow> double \<Rightarrow> double" where
  "fadd NaN _ = NaN"
| "fadd _ NaN = NaN"
| "fadd (Infty s) (Infty t) = (if s = t then Infty s else NaN)"
| "fadd (Infty s) (Fin _ _) = Infty s"
| "fadd (Fin _ _) (Infty t) = Infty t"
| "fadd (Fin s q) (Fin t r) =
     (let v = sval s q + sval t r
      in if v = 0 then Fin (s \<and> t) 0 else rnd (v < 0) \<bar>v\<bar>)"

fun fneg :: "double \<Rightarrow> double" where
  "fneg NaN = NaN"
| "fneg (Infty s) = Infty (\<not> s)"
| "fneg (Fin s q) = Fin (\<not> s) q"

definition fsub :: "double \<Rightarrow> double \<Rightarrow> double" where
  "fsub a b = fadd a (fneg b)"

fun fmul :: "double \<Rightarrow> double \<Rightarrow> double" where
  "fmul NaN _ = NaN"
| "fmul _ NaN = NaN"
| "fmul (Infty s) (Infty t) = Infty (s \<noteq> t)"
| "fmul (Infty s) (Fin t r) = (if r = 0 then NaN else Infty (s \<noteq> t))"
| "fmul (Fin s q) (Infty t) = (if q = 0 then NaN else Infty (s \<noteq> t))"
| "fmul (Fin s q) (Fin t r) = rnd (s \<noteq> t) (q * r)"

fun fdiv :: "double \<Rightarrow> double \<Rightarrow> double" where
  "fdiv NaN _ = NaN"
| "fdiv _ NaN = NaN"
| "fdiv (Infty s) (Infty t) = NaN"
| "fdiv (Infty s) (Fin t r) = Infty (s \<noteq> t)"
| "fdiv (Fin s q) (Infty t) = Fin (s \<noteq> t) 0"
| "fdiv (Fin s q) (Fin t r) =
     (if r = 0 then (if q = 0 then NaN else Infty (s \<noteq> t))
      else rnd (s \<noteq> t) (q / r))"

text \<open>
  The comparisons of C++ on doubles: every comparison with a NaN is false, the two zeros
  are equal, the infinities are the least and the greatest number.
\<close>

fun flt :: "double \<Rightarrow> double \<Rightarrow> bool" where
  "flt NaN _ = False"
| "flt _ NaN = False"
| "flt (Infty s) (Infty t) = (s \<and> \<not> t)"
| "flt (Infty s) (Fin _ _) = s"
| "flt (Fin _ _) (Infty t) = (\<not> t)"
| "flt (Fin s q) (Fin t r) = (sval s q < sval t r)"

definition fgt :: "double \<Rightarrow> double \<Rightarrow> bool" where
  "fgt a b = flt b a"

fun fle :: "double \<Rightarrow> double \<Rightarrow> bool" where
  "fle NaN _ = False"
| "fle _ NaN = False"
| "fle (Infty s) (Infty t) = (s \<or> \<not> t)"
| "fle (Infty s) (Fin _ _) = s"
| "fle (Fin _ _) (Infty t) = (\<not> t)"
| "fle (Fin s q) (Fin t r) = (sval s q \<le> sval t r)"

fun feq :: "double \<Rightarrow> double \<Rightarrow> bool" where
  "feq NaN _ = False"
| "feq _ NaN = False"
| "feq (Infty s) (Infty t) = (s = t)"
| "feq (Infty s) (Fin _ _) = False"
| "feq (Fin _ _) (Infty t) = False"
| "feq (Fin s q) (Fin t r) = (sval s q = sval t r)"

fun is_nan :: "double \<Rightarrow> bool" where
  "is_nan NaN = True"
| "is_nan _ = False"

fun is_finite :: "double \<Rightarrow> bool" where
  "is_finite (Fin _ _) = True"
| "is_finite _ = False"

text \<open>Conversion of a \<^verbatim>\<open>uint\<close> to \<^verbatim>\<open>double\<close>: exact, 32 bits fit the significand.\<close>

definition of_uint :: "uint \<Rightarrow> double" where
  "of_uint w = Fin False (of_nat (unat w))"

text \<open>
  The cast \<^verbatim>\<open>(int)x\<close> of a double truncates towards zero. Its behaviour is undefined
  when the truncated value is not a 32-bit \<^verbatim>\<open>int\<close> (also for NaN and the infinities):
  \<open>None\<close>.
\<close>

definition int_range :: "int \<Rightarrow> bool" where
  "int_range i = (- (2 ^ 31) \<le> i \<and> i < 2 ^ 31)"

fun double_to_int :: "double \<Rightarrow> int option" where
  "double_to_int (Fin s q) =
     (let t = (if s then - \<lfloor>q\<rfloor> else \<lfloor>q\<rfloor>) in if int_range t then Some t else None)"
| "double_to_int _ = None"

text \<open>
  The rounding of a magnitude in two steps, and the signed rounding of a sum, named for the
  proofs that rounding is monotone.
\<close>

definition quantum :: "rat \<Rightarrow> rat" where
  "quantum q = 2 powi (max (ilog2 q) (- 1022) - 52)"

definition rounded :: "rat \<Rightarrow> rat" where
  "rounded q = of_int (round_half_even (q / quantum q)) * quantum q"

definition sround :: "bool \<Rightarrow> rat \<Rightarrow> double" where
  "sround z v = (if v = 0 then Fin z 0 else rnd (v < 0) \<bar>v\<bar>)"

subsection \<open>Qt helpers\<close>

text \<open>
  \<^verbatim>\<open>qMin\<close>, \<^verbatim>\<open>qMax\<close> and \<^verbatim>\<open>qBound\<close> as \<^verbatim>\<open>QtGlobal\<close> defines them;
  \<^verbatim>\<open>QVector::resize\<close> truncates or pads with default-constructed elements.
\<close>

definition qMin :: "'a::linorder \<Rightarrow> 'a \<Rightarrow> 'a" where
  "qMin a b = (if a < b then a else b)"

definition qMax :: "'a::linorder \<Rightarrow> 'a \<Rightarrow> 'a" where
  "qMax a b = (if a < b then b else a)"

definition qBound :: "'a::linorder \<Rightarrow> 'a \<Rightarrow> 'a \<Rightarrow> 'a" where
  "qBound lo v hi = qMax lo (qMin hi v)"

definition resize :: "nat \<Rightarrow> 'a \<Rightarrow> 'a list \<Rightarrow> 'a list" where
  "resize n dflt xs = take n xs @ replicate (n - length xs) dflt"

subsection \<open>Array accesses\<close>

text \<open>
  Reading or writing a vector or a pointer argument outside its bounds is undefined
  behaviour; the model returns \<open>None\<close> there, and so does every function in which such
  an access happens.
\<close>

definition rd :: "'a list \<Rightarrow> nat \<Rightarrow> 'a option" where
  "rd xs i = (if i < length xs then Some (xs ! i) else None)"

definition wr :: "'a list \<Rightarrow> nat \<Rightarrow> 'a \<Rightarrow> 'a list option" where
  "wr xs i v = (if i < length xs then Some (xs[i := v]) else None)"

section \<open>The class \<^verbatim>\<open>Grid\<close>\<close>

text \<open>
  The members of the class, as \<^verbatim>\<open>Grid.cpp\<close> uses them (\<^verbatim>\<open>max\<close>, \<^verbatim>\<open>min\<close>,
  \<^verbatim>\<open>_idx\<close> and \<^verbatim>\<open>_x\<close> are renamed \<open>maxv\<close>, \<open>minv\<close>, \<open>idx_buf\<close> and \<open>x_buf\<close>).
  The last two are the scratch buffers into which the index and coordinate queries write
  their results.
\<close>

record Grid =
  DIM :: uint
  N :: "uint list"
  maxv :: "double list"
  minv :: "double list"
  raster :: "double list list"
  cumN :: "uint list"
  stride :: "double list"
  strideinv :: "double list"
  nodeCount :: uint
  idx_buf :: "uint list"
  x_buf :: "double list"

text \<open>
  The constructor sets \<^verbatim>\<open>nodeCount = 0\<close> only; the vectors start empty and \<^verbatim>\<open>DIM\<close> is
  whatever the memory holds, the parameter \<open>d0\<close>. \<^verbatim>\<open>setDim\<close> overwrites it
  (\<open>setDim_Grid_new\<close> below).
\<close>

definition Grid_new :: "uint \<Rightarrow> Grid" where
  "Grid_new d0 =
     \<lparr>DIM = d0, N = [], maxv = [], minv = [], raster = [], cumN = [], stride = [],
      strideinv = [], nodeCount = 0, idx_buf = [], x_buf = []\<rparr>"

definition setDim :: "uint \<Rightarrow> Grid \<Rightarrow> Grid" where
  "setDim d g =
     g\<lparr>DIM := d,
       N := resize (unat d) 0 (N g),
       maxv := resize (unat d) (Fin False 0) (maxv g),
       minv := resize (unat d) (Fin False 0) (minv g),
       raster := resize (unat d) [] (raster g),
       cumN := resize (unat d) 0 (cumN g),
       stride := resize (unat d) (Fin False 0) (stride g),
       strideinv := resize (unat d) (Fin False 0) (strideinv g),
       idx_buf := resize (unat d) 0 (idx_buf g),
       x_buf := resize (unat d) (Fin False 0) (x_buf g)\<rparr>"

text \<open>
  The loops of the source run a \<^verbatim>\<open>uint\<close> counter from a start value up to a \<^verbatim>\<open>uint\<close>
  bound (\<^verbatim>\<open>DIM\<close>, \<^verbatim>\<open>N[d]\<close>, \<^verbatim>\<open>neighbors\<close>). The counter stays below the bound, so its
  increment never wraps, and the model counts in \<open>nat\<close> up to the \<open>unat\<close> of the bound.

  \<^verbatim>\<open>setN\<close>, \<^verbatim>\<open>setMin\<close> and \<^verbatim>\<open>setMax\<close> copy the first \<^verbatim>\<open>DIM\<close> cells of their pointer
  argument, and so does the loop \<^verbatim>\<open>_idx[d] = bmin[d]\<close> of the two enumerations.
\<close>

function copy_loop :: "nat \<Rightarrow> 'a list \<Rightarrow> nat \<Rightarrow> 'a list \<Rightarrow> 'a list option" where
  "copy_loop n src d dst =
     (if d < n then
        do { v \<leftarrow> rd src d;
             dst' \<leftarrow> wr dst d v;
             copy_loop n src (Suc d) dst' }
      else Some dst)"
  by pat_completeness auto
termination
  by (relation "measure (\<lambda>(n, src, d, dst). n - d)") auto

declare copy_loop.simps [simp del]

definition setN :: "uint list \<Rightarrow> Grid \<Rightarrow> Grid option" where
  "setN ns g = map_option (\<lambda>v. g\<lparr>N := v\<rparr>) (copy_loop (unat (DIM g)) ns 0 (N g))"

definition setMin :: "double list \<Rightarrow> Grid \<Rightarrow> Grid option" where
  "setMin mn g = map_option (\<lambda>v. g\<lparr>minv := v\<rparr>) (copy_loop (unat (DIM g)) mn 0 (minv g))"

definition setMax :: "double list \<Rightarrow> Grid \<Rightarrow> Grid option" where
  "setMax mx g = map_option (\<lambda>v. g\<lparr>maxv := v\<rparr>) (copy_loop (unat (DIM g)) mx 0 (maxv g))"

subsection \<open>\<^verbatim>\<open>rasterize\<close>\<close>

function nodeCount_loop :: "Grid \<Rightarrow> nat \<Rightarrow> uint \<Rightarrow> uint option" where
  "nodeCount_loop g d c =
     (if d < unat (DIM g) then
        do { n \<leftarrow> rd (N g) d;
             nodeCount_loop g (Suc d) (c * n) }
      else Some c)"
  by pat_completeness auto
termination
  by (relation "measure (\<lambda>(g, d, c). unat (DIM g) - d)") auto

declare nodeCount_loop.simps [simp del]

function cumN_loop :: "Grid \<Rightarrow> nat \<Rightarrow> uint list \<Rightarrow> uint list option" where
  "cumN_loop g d cs =
     (if d < unat (DIM g) then
        do { c \<leftarrow> rd cs (d - 1);
             n \<leftarrow> rd (N g) (d - 1);
             cs' \<leftarrow> wr cs d (c * n);
             cumN_loop g (Suc d) cs' }
      else Some cs)"
  by pat_completeness auto
termination
  by (relation "measure (\<lambda>(g, d, cs). unat (DIM g) - d)") auto

declare cumN_loop.simps [simp del]

text \<open>The inner loop \<^verbatim>\<open>raster[d][n] = min[d]+n*stride[d]\<close>.\<close>

function fill_loop :: "double \<Rightarrow> double \<Rightarrow> nat \<Rightarrow> nat \<Rightarrow> double list \<Rightarrow> double list option" where
  "fill_loop mn st cnt n row =
     (if n < cnt then
        do { row' \<leftarrow> wr row n (fadd mn (fmul (of_uint (of_nat n)) st));
             fill_loop mn st cnt (Suc n) row' }
      else Some row)"
  by pat_completeness auto
termination
  by (relation "measure (\<lambda>(mn, st, cnt, n, row). cnt - n)") auto

declare fill_loop.simps [simp del]

function raster_loop ::
  "Grid \<Rightarrow> nat \<Rightarrow> double list \<Rightarrow> double list \<Rightarrow> double list list
   \<Rightarrow> (double list \<times> double list \<times> double list list) option" where
  "raster_loop g d st si ra =
     (if d < unat (DIM g) then
        do { mx \<leftarrow> rd (maxv g) d;
             mn \<leftarrow> rd (minv g) d;
             n \<leftarrow> rd (N g) d;
             let l = fsub mx mn;
             let s = fdiv l (of_uint (n - 1));
             st' \<leftarrow> wr st d s;
             si' \<leftarrow> wr si d (fdiv (Fin False 1) s);
             row \<leftarrow> rd ra d;
             row' \<leftarrow> fill_loop mn s (unat n) 0 (resize (unat n) (Fin False 0) row);
             ra' \<leftarrow> wr ra d row';
             raster_loop g (Suc d) st' si' ra' }
      else Some (st, si, ra))"
  by pat_completeness auto
termination
  by (relation "measure (\<lambda>(g, d, st, si, ra). unat (DIM g) - d)") auto

declare raster_loop.simps [simp del]

definition rasterize :: "Grid \<Rightarrow> Grid option" where
  "rasterize g =
     do { n0 \<leftarrow> rd (N g) 0;
          nc \<leftarrow> nodeCount_loop g 1 n0;
          cs0 \<leftarrow> wr (cumN g) 0 1;
          cs \<leftarrow> cumN_loop g 1 cs0;
          (st, si, ra) \<leftarrow> raster_loop g 0 (stride g) (strideinv g) (raster g);
          Some (g\<lparr>nodeCount := nc, cumN := cs, stride := st, strideinv := si, raster := ra\<rparr>) }"

subsection \<open>Index conversions\<close>

text \<open>\<^verbatim>\<open>convertIndex(const uint*)\<close>: dimension index to flat index.\<close>

function convertIndex_loop :: "Grid \<Rightarrow> uint list \<Rightarrow> nat \<Rightarrow> uint \<Rightarrow> uint option" where
  "convertIndex_loop g idx d k =
     (if d < unat (DIM g) then
        do { i \<leftarrow> rd idx d;
             c \<leftarrow> rd (cumN g) d;
             convertIndex_loop g idx (Suc d) (k + i * c) }
      else Some k)"
  by pat_completeness auto
termination
  by (relation "measure (\<lambda>(g, idx, d, k). unat (DIM g) - d)") auto

declare convertIndex_loop.simps [simp del]

definition convertIndex :: "Grid \<Rightarrow> uint list \<Rightarrow> uint option" where
  "convertIndex g idx = do { k \<leftarrow> rd idx 0; convertIndex_loop g idx 1 k }"

text \<open>
  \<^verbatim>\<open>convertIndex(uint)\<close>: flat index to dimension index, written into \<^verbatim>\<open>_idx\<close>; the
  result is the content of that buffer. Division by zero is undefined behaviour.
\<close>

function convertIndex_flat_loop :: "Grid \<Rightarrow> nat \<Rightarrow> uint \<Rightarrow> uint list \<Rightarrow> uint list option" where
  "convertIndex_flat_loop g d v buf =
     (if d < unat (DIM g) then
        do { n \<leftarrow> rd (N g) d;
             if n = 0 then None
             else do { buf' \<leftarrow> wr buf d (v mod n);
                       convertIndex_flat_loop g (Suc d) (v div n) buf' } }
      else Some buf)"
  by pat_completeness auto
termination
  by (relation "measure (\<lambda>(g, d, v, buf). unat (DIM g) - d)") auto

declare convertIndex_flat_loop.simps [simp del]

definition convertIndex_flat :: "Grid \<Rightarrow> uint \<Rightarrow> uint list option" where
  "convertIndex_flat g n = convertIndex_flat_loop g 0 n (idx_buf g)"

subsection \<open>Node lookup\<close>

text \<open>
  \<^verbatim>\<open>getNodeIndexBl\<close>: per axis
  \<^verbatim>\<open>(uint)qBound(0, (int)((x[d]-min[d])*strideinv[d]), (int)N[d]-2)\<close>. The cast
  \<^verbatim>\<open>(int)N[d]\<close> reads the 32 bits as two's complement; the subtraction is signed, and
  its overflow is undefined behaviour.
\<close>

function getNodeIndexBl_loop :: "Grid \<Rightarrow> double list \<Rightarrow> nat \<Rightarrow> uint list \<Rightarrow> uint list option" where
  "getNodeIndexBl_loop g x d buf =
     (if d < unat (DIM g) then
        do { xd \<leftarrow> rd x d;
             mn \<leftarrow> rd (minv g) d;
             si \<leftarrow> rd (strideinv g) d;
             v \<leftarrow> double_to_int (fmul (fsub xd mn) si);
             n \<leftarrow> rd (N g) d;
             if int_range (sint n - 2) then
               do { buf' \<leftarrow> wr buf d (word_of_int (qBound 0 v (sint n - 2)));
                    getNodeIndexBl_loop g x (Suc d) buf' }
             else None }
      else Some buf)"
  by pat_completeness auto
termination
  by (relation "measure (\<lambda>(g, x, d, buf). unat (DIM g) - d)") auto

declare getNodeIndexBl_loop.simps [simp del]

definition getNodeIndexBl :: "Grid \<Rightarrow> double list \<Rightarrow> uint list option" where
  "getNodeIndexBl g x = getNodeIndexBl_loop g x 0 (idx_buf g)"

subsection \<open>Enumerations\<close>

text \<open>
  Both enumerations fill two local arrays \<^verbatim>\<open>bmin[DIM]\<close> and \<^verbatim>\<open>bmax[DIM]\<close> (their cells
  are indeterminate until written; every cell is written before it is read, and the
  model starts them at 0), count the points of the box, and walk the box with an odometer
  on \<^verbatim>\<open>_idx\<close>. The counting loop and the odometer are the same text in both functions.
\<close>

function count_loop :: "nat \<Rightarrow> uint list \<Rightarrow> uint list \<Rightarrow> nat \<Rightarrow> uint \<Rightarrow> uint option" where
  "count_loop n bmin bmax d neighbors =
     (if d < n then
        do { hi \<leftarrow> rd bmax d;
             lo \<leftarrow> rd bmin d;
             count_loop n bmin bmax (Suc d) (neighbors * (hi - lo + 1)) }
      else Some neighbors)"
  by pat_completeness auto
termination
  by (relation "measure (\<lambda>(n, bmin, bmax, d, neighbors). n - d)") auto

declare count_loop.simps [simp del]

text \<open>
  The inner \<^verbatim>\<open>while (d < DIM)\<close>: increment cell \<open>d\<close>; stop if it is still within
  \<^verbatim>\<open>bmax[d]\<close>, otherwise reset it to \<^verbatim>\<open>bmin[d]\<close> and carry into the next cell.
\<close>

function odometer :: "nat \<Rightarrow> uint list \<Rightarrow> uint list \<Rightarrow> nat \<Rightarrow> uint list \<Rightarrow> uint list option" where
  "odometer n bmin bmax d buf =
     (if d < n then
        do { v \<leftarrow> rd buf d;
             buf1 \<leftarrow> wr buf d (v + 1);
             hi \<leftarrow> rd bmax d;
             if v + 1 \<le> hi then Some buf1
             else do { lo \<leftarrow> rd bmin d;
                       buf2 \<leftarrow> wr buf1 d lo;
                       odometer n bmin bmax (Suc d) buf2 } }
      else Some buf)"
  by pat_completeness auto
termination
  by (relation "measure (\<lambda>(n, bmin, bmax, d, buf). n - d)") auto

declare odometer.simps [simp del]

text \<open>\<^verbatim>\<open>enumerateNeighborHood(const uint*, uint)\<close>.\<close>

function neighborhood_bounds ::
  "Grid \<Rightarrow> uint list \<Rightarrow> uint \<Rightarrow> nat \<Rightarrow> uint list \<Rightarrow> uint list \<Rightarrow> (uint list \<times> uint list) option" where
  "neighborhood_bounds g idx radius d bmin bmax =
     (if d < unat (DIM g) then
        do { i \<leftarrow> rd idx d;
             bmin' \<leftarrow> wr bmin d (if i < radius then 0 else i - radius);
             n \<leftarrow> rd (N g) d;
             bmax' \<leftarrow> wr bmax d (qMin (i + radius) (n - 1));
             neighborhood_bounds g idx radius (Suc d) bmin' bmax' }
      else Some (bmin, bmax))"
  by pat_completeness auto
termination
  by (relation "measure (\<lambda>(g, idx, radius, d, bmin, bmax). unat (DIM g) - d)") auto

declare neighborhood_bounds.simps [simp del]

function neighborhood_loop ::
  "Grid \<Rightarrow> uint \<Rightarrow> uint list \<Rightarrow> uint list \<Rightarrow> nat \<Rightarrow> nat \<Rightarrow> uint list \<Rightarrow> uint list
   \<Rightarrow> uint list option" where
  "neighborhood_loop g center bmin bmax neighbors i buf neighborhood =
     (if i < neighbors then
        do { c \<leftarrow> convertIndex g buf;
             buf' \<leftarrow> odometer (unat (DIM g)) bmin bmax 0 buf;
             neighborhood_loop g center bmin bmax neighbors (Suc i) buf'
               (if c \<noteq> center then neighborhood @ [c] else neighborhood) }
      else Some neighborhood)"
  by pat_completeness auto
termination
  by (relation "measure (\<lambda>(g, center, bmin, bmax, neighbors, i, buf, nb). neighbors - i)") auto

declare neighborhood_loop.simps [simp del]

definition enumerateNeighborHood :: "Grid \<Rightarrow> uint list \<Rightarrow> uint \<Rightarrow> uint list option" where
  "enumerateNeighborHood g idx radius =
     do { center \<leftarrow> convertIndex g idx;
          (bmin, bmax) \<leftarrow> neighborhood_bounds g idx radius 0
                            (replicate (unat (DIM g)) 0) (replicate (unat (DIM g)) 0);
          neighbors \<leftarrow> count_loop (unat (DIM g)) bmin bmax 0 1;
          buf \<leftarrow> copy_loop (unat (DIM g)) bmin 0 (idx_buf g);
          neighborhood_loop g center bmin bmax (unat neighbors) 0 buf [] }"

text \<open>
  \<^verbatim>\<open>enumerateNeighborHood(uint, uint)\<close> passes the buffer that \<^verbatim>\<open>convertIndex(uint)\<close>
  has just filled. The callee reads its argument only before its first write to
  \<^verbatim>\<open>_idx\<close>, so the argument can be passed by value.
\<close>

definition enumerateNeighborHood_flat :: "Grid \<Rightarrow> uint \<Rightarrow> uint \<Rightarrow> uint list option" where
  "enumerateNeighborHood_flat g n radius =
     do { idx \<leftarrow> convertIndex_flat g n;
          enumerateNeighborHood (g\<lparr>idx_buf := idx\<rparr>) idx radius }"

text \<open>\<^verbatim>\<open>getEnvelopingNodes\<close>.\<close>

function enveloping_bounds ::
  "Grid \<Rightarrow> uint list \<Rightarrow> uint \<Rightarrow> nat \<Rightarrow> uint list \<Rightarrow> uint list \<Rightarrow> (uint list \<times> uint list) option" where
  "enveloping_bounds g idx radius d bmin bmax =
     (if d < unat (DIM g) then
        do { i \<leftarrow> rd idx d;
             bmin' \<leftarrow> wr bmin d (qMax (i - radius) 0);
             n \<leftarrow> rd (N g) d;
             bmax' \<leftarrow> wr bmax d (qMin (i + radius + 1) (n - 1));
             enveloping_bounds g idx radius (Suc d) bmin' bmax' }
      else Some (bmin, bmax))"
  by pat_completeness auto
termination
  by (relation "measure (\<lambda>(g, idx, radius, d, bmin, bmax). unat (DIM g) - d)") auto

declare enveloping_bounds.simps [simp del]

function enveloping_loop ::
  "Grid \<Rightarrow> uint list \<Rightarrow> uint list \<Rightarrow> nat \<Rightarrow> nat \<Rightarrow> uint list \<Rightarrow> uint list \<Rightarrow> uint list option" where
  "enveloping_loop g bmin bmax neighbors i buf neighborhood =
     (if i < neighbors then
        do { c \<leftarrow> convertIndex g buf;
             buf' \<leftarrow> odometer (unat (DIM g)) bmin bmax 0 buf;
             enveloping_loop g bmin bmax neighbors (Suc i) buf' (neighborhood @ [c]) }
      else Some neighborhood)"
  by pat_completeness auto
termination
  by (relation "measure (\<lambda>(g, bmin, bmax, neighbors, i, buf, nb). neighbors - i)") auto

declare enveloping_loop.simps [simp del]

definition getEnvelopingNodes :: "Grid \<Rightarrow> double list \<Rightarrow> uint \<Rightarrow> uint list option" where
  "getEnvelopingNodes g x radius =
     do { idx \<leftarrow> getNodeIndexBl g x;
          (bmin, bmax) \<leftarrow> enveloping_bounds g idx radius 0
                            (replicate (unat (DIM g)) 0) (replicate (unat (DIM g)) 0);
          neighbors \<leftarrow> count_loop (unat (DIM g)) bmin bmax 0 1;
          buf \<leftarrow> copy_loop (unat (DIM g)) bmin 0 idx;
          enveloping_loop g bmin bmax (unat neighbors) 0 buf [] }"

subsection \<open>\<^verbatim>\<open>containsPoint\<close>\<close>

function containsPoint_loop :: "Grid \<Rightarrow> double list \<Rightarrow> nat \<Rightarrow> bool option" where
  "containsPoint_loop g x d =
     (if d < unat (DIM g) then
        do { xd \<leftarrow> rd x d;
             mx \<leftarrow> rd (maxv g) d;
             if fgt xd mx then Some False
             else do { mn \<leftarrow> rd (minv g) d;
                       if flt xd mn then Some False
                       else containsPoint_loop g x (Suc d) } }
      else Some True)"
  by pat_completeness auto
termination
  by (relation "measure (\<lambda>(g, x, d). unat (DIM g) - d)") auto

declare containsPoint_loop.simps [simp del]

definition containsPoint :: "Grid \<Rightarrow> double list \<Rightarrow> bool option" where
  "containsPoint g x = containsPoint_loop g x 0"

section \<open>Set-up of a grid\<close>

text \<open>
  The sequence of calls that the header comment of \<^verbatim>\<open>Grid.cpp\<close> prescribes:
  \<^verbatim>\<open>Grid grid; grid.setDim(d); grid.setN(N); grid.setMin(min); grid.setMax(max);
  grid.rasterize();\<close>
\<close>

definition configure :: "uint \<Rightarrow> uint list \<Rightarrow> double list \<Rightarrow> double list \<Rightarrow> Grid option" where
  "configure d ns mn mx =
     do { g1 \<leftarrow> setN ns (setDim d (Grid_new 0));
          g2 \<leftarrow> setMin mn g1;
          setMax mx g2 }"

definition make_grid :: "uint \<Rightarrow> uint list \<Rightarrow> double list \<Rightarrow> double list \<Rightarrow> Grid option" where
  "make_grid d ns mn mx = do { g \<leftarrow> configure d ns mn mx; rasterize g }"

text \<open>
  After \<^verbatim>\<open>setDim\<close> every vector of the grid has \<^verbatim>\<open>DIM\<close> cells, and the setters keep it
  so.
\<close>

definition sized :: "Grid \<Rightarrow> bool" where
  "sized g \<longleftrightarrow>
     length (N g) = unat (DIM g) \<and> length (maxv g) = unat (DIM g) \<and>
     length (minv g) = unat (DIM g) \<and> length (raster g) = unat (DIM g) \<and>
     length (cumN g) = unat (DIM g) \<and> length (stride g) = unat (DIM g) \<and>
     length (strideinv g) = unat (DIM g) \<and> length (idx_buf g) = unat (DIM g) \<and>
     length (x_buf g) = unat (DIM g)"

text \<open>The 3 by 3 grid on \<open>[0,2] \<times> [0,2]\<close> of the specification's examples.\<close>

definition grid3 :: "Grid option" where
  "grid3 = make_grid 2 [3, 3] [Fin False 0, Fin False 0] [Fin False 2, Fin False 2]"

section \<open>Closed forms of the loops of \<^verbatim>\<open>rasterize\<close>\<close>

text \<open>
  What the loops of \<^verbatim>\<open>rasterize\<close> leave in each cell, as functions of the configuration
  alone. \<open>rasterize_eq\<close> below proves that \<^verbatim>\<open>rasterize\<close> computes exactly this state.
\<close>

definition axis_stride :: "Grid \<Rightarrow> nat \<Rightarrow> double" where
  "axis_stride g d = fdiv (fsub (maxv g ! d) (minv g ! d)) (of_uint (N g ! d - 1))"

definition axis_node :: "Grid \<Rightarrow> nat \<Rightarrow> nat \<Rightarrow> double" where
  "axis_node g d n = fadd (minv g ! d) (fmul (of_uint (of_nat n)) (axis_stride g d))"

definition rasterized :: "Grid \<Rightarrow> Grid" where
  "rasterized g =
     g\<lparr>nodeCount := prod_list (N g),
       cumN := map (\<lambda>d. prod_list (take d (N g))) [0..<unat (DIM g)],
       stride := map (axis_stride g) [0..<unat (DIM g)],
       strideinv := map (\<lambda>d. fdiv (Fin False 1) (axis_stride g d)) [0..<unat (DIM g)],
       raster := map (\<lambda>d. map (axis_node g d) [0..<unat (N g ! d)]) [0..<unat (DIM g)]\<rparr>"

text \<open>Mixed-radix numbers over \<open>nat\<close>, the arithmetic behind the two index conversions.\<close>

fun digits :: "nat list \<Rightarrow> nat \<Rightarrow> nat list" where
  "digits [] v = []"
| "digits (n # ns) v = (v mod n) # digits ns (v div n)"

fun horner :: "'a::comm_semiring_1 list \<Rightarrow> 'a list \<Rightarrow> 'a" where
  "horner (n # ns) (i # is) = i + n * horner ns is"
| "horner _ _ = 0"

text \<open>The state that the configuration calls leave, when every argument has \<^verbatim>\<open>DIM\<close> cells.\<close>

definition configured :: "uint \<Rightarrow> uint list \<Rightarrow> double list \<Rightarrow> double list \<Rightarrow> Grid" where
  "configured d ns mn mx =
     \<lparr>DIM = d, N = ns, maxv = mx, minv = mn,
      raster = replicate (unat d) [],
      cumN = replicate (unat d) 0,
      stride = replicate (unat d) (Fin False 0),
      strideinv = replicate (unat d) (Fin False 0),
      nodeCount = 0,
      idx_buf = replicate (unat d) 0,
      x_buf = replicate (unat d) (Fin False 0)\<rparr>"

text \<open>
  The condition of the specification for \<^verbatim>\<open>containsPoint\<close>: on every axis the
  coordinate lies between the lower and the upper bound, both inclusive.
\<close>

definition within_bounds :: "Grid \<Rightarrow> double list \<Rightarrow> bool" where
  "within_bounds g x \<longleftrightarrow>
     list_all (\<lambda>d. fle (minv g ! d) (x ! d) \<and> fle (x ! d) (maxv g ! d)) [0..<unat (DIM g)]"

definition cfg3 :: Grid where
  "cfg3 = configured 2 [3, 3] [Fin False 0, Fin False 0] [Fin False 2, Fin False 2]"

definition g3 :: Grid where
  "g3 = \<lparr>DIM = 2, N = [3, 3], maxv = [Fin False 2, Fin False 2],
          minv = [Fin False 0, Fin False 0],
          raster = [[Fin False 0, Fin False 1, Fin False 2],
                    [Fin False 0, Fin False 1, Fin False 2]],
          cumN = [1, 3], stride = [Fin False 1, Fin False 1],
          strideinv = [Fin False 1, Fin False 1], nodeCount = 9,
          idx_buf = [0, 0], x_buf = [Fin False 0, Fin False 0]\<rparr>"

section \<open>Rounding is monotone\<close>

lemma bit_length_0 [simp]: "n \<le> 0 \<Longrightarrow> bit_length n = 0"
  by (subst bit_length.simps) simp

lemma bit_length_rec: "0 < n \<Longrightarrow> bit_length n = 1 + bit_length (n div 2)"
  by (subst bit_length.simps) simp

lemma bit_length_nonneg: "0 \<le> bit_length n"
proof (induction n rule: bit_length.induct)
  case (1 n)
  then show ?case
    by (cases "n \<le> 0") (simp_all add: bit_length_rec)
qed

lemma bit_length_bounds:
  "0 < n \<Longrightarrow> 2 ^ nat (bit_length n - 1) \<le> n \<and> n < 2 ^ nat (bit_length n)"
proof (induction n rule: bit_length.induct)
  case (1 n)
  show ?case
  proof (cases "n div 2 = 0")
    case True
    then have "n = 1" using 1(2) by presburger
    then show ?thesis
      by (simp add: bit_length_rec)
  next
    case False
    then have pos: "0 < n div 2" using 1(2) by presburger
    let ?b = "bit_length (n div 2)"
    have ih: "2 ^ nat (?b - 1) \<le> n div 2" "n div 2 < 2 ^ nat ?b"
      using 1(1) pos 1(2) by simp_all
    have b1: "1 \<le> ?b"
    proof (rule ccontr)
      assume "\<not> 1 \<le> ?b"
      then have "?b = 0" using bit_length_nonneg [of "n div 2"] by linarith
      then show False using ih(2) pos by simp
    qed
    have e1: "nat (bit_length n - 1) = Suc (nat (?b - 1))"
      using b1 1(2) by (simp add: bit_length_rec nat_diff_distrib Suc_nat_eq_nat_zadd1)
    have e2: "nat (bit_length n) = Suc (nat ?b)"
      using b1 1(2) by (simp add: bit_length_rec nat_add_distrib)
    have "2 * 2 ^ nat (?b - 1) \<le> 2 * (n div 2)"
      using ih(1) by simp
    also have "\<dots> \<le> n" by presburger
    finally have lo: "2 ^ nat (bit_length n - 1) \<le> n"
      by (simp add: e1)
    have "n < 2 * (n div 2 + 1)" by presburger
    also have "\<dots> \<le> 2 * 2 ^ nat ?b"
      using ih(2) by simp
    finally have hi: "n < 2 ^ nat (bit_length n)"
      by (simp add: e2)
    show ?thesis using lo hi by simp
  qed
qed

lemma bit_length_pos: "0 < n \<Longrightarrow> 1 \<le> bit_length n"
  using bit_length_nonneg [of "n div 2"] by (simp add: bit_length_rec)

lemma powi_nat: "0 \<le> e \<Longrightarrow> (2 :: rat) powi e = of_int (2 ^ nat e)"
  by (simp add: power_int_def)

lemma ilog2_bounds:
  assumes "0 < q"
  shows "2 powi (ilog2 q) \<le> q \<and> q < 2 powi (ilog2 q + 1)"
proof (cases "1 \<le> q")
  case True
  let ?n = "\<lfloor>q\<rfloor>"
  let ?b = "bit_length ?n"
  have n: "0 < ?n" using True by simp
  have b: "1 \<le> ?b" using n by (rule bit_length_pos)
  have e: "ilog2 q = ?b - 1" using True by (simp add: ilog2_def)
  have "(2 :: rat) powi (?b - 1) = of_int (2 ^ nat (?b - 1))"
    using b by (intro powi_nat) simp
  also have "\<dots> \<le> of_int ?n"
    using bit_length_bounds [OF n] by (simp only: of_int_le_iff)
  also have "\<dots> \<le> q" by simp
  finally have lo: "2 powi (ilog2 q) \<le> q" by (simp add: e)
  have "q < of_int (?n + 1)" by linarith
  also have "\<dots> \<le> of_int (2 ^ nat ?b)"
    using bit_length_bounds [OF n] by (simp only: of_int_le_iff) linarith
  also have "\<dots> = (2 :: rat) powi ?b"
    using b by (subst powi_nat) simp_all
  finally have hi: "q < 2 powi (ilog2 q + 1)" by (simp add: e)
  show ?thesis using lo hi by simp
next
  case False
  let ?y = "1 / q"
  let ?m = "\<lceil>?y\<rceil> - 1"
  let ?b = "bit_length ?m"
  have y: "1 < ?y" using False assms by simp
  then have m: "0 < ?m" by (simp add: less_ceiling_iff)
  have b: "1 \<le> ?b" using m by (rule bit_length_pos)
  have e: "ilog2 q = - ?b" using False by (simp add: ilog2_def)
  have pb: "(2 :: rat) powi ?b = of_int (2 ^ nat ?b)"
    using b by (intro powi_nat) simp
  have pb1: "(2 :: rat) powi (?b - 1) = of_int (2 ^ nat (?b - 1))"
    using b by (intro powi_nat) simp
  have "?y \<le> of_int (?m + 1)" by simp
  also have "\<dots> \<le> of_int (2 ^ nat ?b)"
    using bit_length_bounds [OF m] by (simp only: of_int_le_iff) linarith
  finally have "?y \<le> 2 powi ?b" by (simp only: pb)
  then have "1 \<le> q * 2 powi ?b"
    using assms by (simp add: field_simps)
  then have lo: "2 powi (- ?b) \<le> q"
    by (simp add: power_int_minus field_simps)
  have "of_int (2 ^ nat (?b - 1)) \<le> (of_int ?m :: rat)"
    using bit_length_bounds [OF m] by (simp only: of_int_le_iff)
  also have "of_int ?m < ?y"
    using ceiling_correct [of ?y] by simp
  finally have "2 powi (?b - 1) < ?y" by (simp only: pb1)
  moreover have P: "(0 :: rat) < 2 powi (?b - 1)"
    by (simp add: zero_less_power_int)
  ultimately have "q * 2 powi (?b - 1) < 1"
    using assms by (simp add: field_simps)
  then have "q < 1 / 2 powi (?b - 1)"
    using P by (simp add: pos_less_divide_eq)
  also have "1 / 2 powi (?b - 1) = (2 :: rat) powi (- (?b - 1))"
    by (rule power_int_minus_divide [symmetric])
  finally have hi: "q < 2 powi (- ?b + 1)"
    by simp
  show ?thesis using lo hi by (simp add: e)
qed

lemma ilog2_mono:
  assumes "0 < q" "q \<le> q'"
  shows "ilog2 q \<le> ilog2 q'"
proof (rule ccontr)
  assume "\<not> ilog2 q \<le> ilog2 q'"
  then have "ilog2 q' + 1 \<le> ilog2 q" by simp
  then have "(2 :: rat) powi (ilog2 q' + 1) \<le> 2 powi (ilog2 q)"
    by (intro power_int_increasing) simp_all
  moreover have "q' < 2 powi (ilog2 q' + 1)" "2 powi (ilog2 q) \<le> q"
    using ilog2_bounds [of q] ilog2_bounds [of q'] assms by simp_all
  ultimately show False using assms(2) by linarith
qed

lemma round_mag_eq:
  "round_mag q = (if q = 0 then Some 0 else if 2 ^ 1024 \<le> rounded q then None else Some (rounded q))"
  by (simp add: round_mag_def rounded_def quantum_def Let_def)

lemma quantum_pos: "0 < quantum q"
  by (simp add: quantum_def zero_less_power_int)

lemma round_half_even_cases:
  "round_half_even x = \<lfloor>x\<rfloor> \<or> round_half_even x = \<lfloor>x\<rfloor> + 1"
  by (simp add: round_half_even_def Let_def)

lemma round_half_even_of_int [simp]: "round_half_even (of_int k) = k"
  by (simp add: round_half_even_def)

lemma round_half_even_mono:
  assumes "x \<le> y"
  shows "round_half_even x \<le> round_half_even y"
proof (cases "\<lfloor>x\<rfloor> = \<lfloor>y\<rfloor>")
  case True
  then have "x - of_int \<lfloor>x\<rfloor> \<le> y - of_int \<lfloor>y\<rfloor>"
    using assms by simp
  then show ?thesis
    using True by (auto simp: round_half_even_def Let_def)
next
  case False
  then have "\<lfloor>x\<rfloor> + 1 \<le> \<lfloor>y\<rfloor>"
    using floor_mono [OF assms] by linarith
  moreover have "round_half_even x \<le> \<lfloor>x\<rfloor> + 1" "\<lfloor>y\<rfloor> \<le> round_half_even y"
    using round_half_even_cases [of x] round_half_even_cases [of y] by auto
  ultimately show ?thesis by linarith
qed

lemma round_half_even_le: "x \<le> of_int k \<Longrightarrow> round_half_even x \<le> k"
  using round_half_even_mono [of x "of_int k"] by simp

lemma round_half_even_ge: "of_int k \<le> x \<Longrightarrow> k \<le> round_half_even x"
  using round_half_even_mono [of "of_int k" x] by simp

lemma rounded_nonneg: "0 \<le> q \<Longrightarrow> 0 \<le> rounded q"
proof -
  assume "0 \<le> q"
  then have "of_int 0 \<le> q / quantum q"
    using quantum_pos [of q] by simp
  then have "0 \<le> round_half_even (q / quantum q)"
    by (rule round_half_even_ge)
  then show ?thesis
    using quantum_pos [of q] by (simp add: rounded_def)
qed

lemma powi2_diff: "(2 :: rat) powi a / 2 powi b = 2 powi (a - b)"
  by (simp add: power_int_diff)

lemma powi2_add: "(2 :: rat) powi a * 2 powi b = 2 powi (a + b)"
  by (simp add: power_int_add)

lemma rounded_mono:
  assumes "0 < q" "q \<le> q'"
  shows "rounded q \<le> rounded q'"
proof -
  let ?e = "max (ilog2 q) (- 1022)" and ?e' = "max (ilog2 q') (- 1022)"
  have q': "0 < q'" using assms by simp
  have ee: "?e \<le> ?e'"
    using ilog2_mono [OF assms] by simp
  show ?thesis
  proof (cases "?e = ?e'")
    case True
    then have u: "quantum q' = quantum q"
      by (simp add: quantum_def)
    have "q / quantum q \<le> q' / quantum q"
      using assms(2) quantum_pos [of q] by (simp add: divide_right_mono)
    then have "round_half_even (q / quantum q) \<le> round_half_even (q' / quantum q)"
      by (rule round_half_even_mono)
    then show ?thesis
      using quantum_pos [of q] by (simp add: rounded_def u)
  next
    case False
    then have lt: "?e + 1 \<le> ?e'" using ee by linarith
    then have e': "?e' = ilog2 q'" by linarith
    have two: "(2 :: rat) powi 53 = of_int (2 ^ 53)" "(2 :: rat) powi 52 = of_int (2 ^ 52)"
      by (simp_all add: powi_nat)
    have "q < 2 powi (ilog2 q + 1)"
      using ilog2_bounds [OF assms(1)] by simp
    also have "\<dots> \<le> 2 powi (?e + 1)"
      by (intro power_int_increasing) simp_all
    finally have "q < 2 powi (?e + 1)" .
    then have "q / quantum q \<le> 2 powi (?e + 1) / quantum q"
      using quantum_pos [of q] by (simp add: divide_right_mono)
    also have "2 powi (?e + 1) / quantum q = (2 :: rat) powi 53"
      unfolding quantum_def powi2_diff by (simp add: ac_simps)
    finally have "round_half_even (q / quantum q) \<le> 2 ^ 53"
      unfolding two by (rule round_half_even_le)
    then have "of_int (round_half_even (q / quantum q)) \<le> (2 :: rat) powi 53"
      unfolding two by (simp only: of_int_le_iff)
    then have "rounded q \<le> 2 powi 53 * quantum q"
      using quantum_pos [of q] by (simp add: rounded_def mult_right_mono)
    also have "\<dots> = 2 powi (?e + 1)"
      unfolding quantum_def powi2_add by (simp add: ac_simps)
    also have "\<dots> \<le> 2 powi ?e'"
      using lt by (intro power_int_increasing) simp_all
    finally have low: "rounded q \<le> 2 powi ?e'" .
    have "2 powi ?e' \<le> q'"
      using ilog2_bounds [OF q'] by (simp only: e')
    then have "2 powi ?e' / quantum q' \<le> q' / quantum q'"
      using quantum_pos [of q'] by (simp add: divide_right_mono)
    moreover have "2 powi ?e' / quantum q' = (2 :: rat) powi 52"
      unfolding quantum_def powi2_diff by (simp add: ac_simps)
    ultimately have "2 ^ 52 \<le> round_half_even (q' / quantum q')"
      unfolding two by (intro round_half_even_ge) simp
    then have "(2 :: rat) powi 52 \<le> of_int (round_half_even (q' / quantum q'))"
      unfolding two by (simp only: of_int_le_iff)
    then have "2 powi 52 * quantum q' \<le> rounded q'"
      using quantum_pos [of q'] by (simp add: rounded_def mult_right_mono)
    moreover have "2 powi 52 * quantum q' = 2 powi ?e'"
      unfolding quantum_def powi2_add by (simp add: ac_simps)
    ultimately show ?thesis
      using low by linarith
  qed
qed

lemma round_mag_nonneg: "0 \<le> q \<Longrightarrow> round_mag q = Some r \<Longrightarrow> 0 \<le> r"
  using rounded_nonneg [of q] by (auto simp: round_mag_eq split: if_splits)

lemma round_mag_mono:
  assumes "0 \<le> q" "q \<le> q'" "round_mag q' = Some r'"
  shows "\<exists>r. round_mag q = Some r \<and> r \<le> r'"
proof (cases "q = 0")
  case True
  then show ?thesis
    using round_mag_nonneg [OF _ assms(3)] assms(1,2) by (simp add: round_mag_eq)
next
  case False
  then have q: "0 < q" using assms(1) by simp
  then have "q' \<noteq> 0" using assms(2) by auto
  then have r': "r' = rounded q'" "rounded q' < 2 ^ 1024"
    using assms(3) by (auto simp: round_mag_eq split: if_splits)
  have "rounded q \<le> rounded q'"
    using q assms(2) by (rule rounded_mono)
  then show ?thesis
    using False r' by (simp add: round_mag_eq)
qed

lemma rnd_cases:
  obtains (finite) r where "round_mag q = Some r" "rnd s q = Fin s r"
        | (overflow) "round_mag q = None" "rnd s q = Infty s"
  by (cases "round_mag q") (auto simp: rnd_def)

lemma rnd_not_nan [simp]: "\<not> is_nan (rnd s q)"
  by (cases q s rule: rnd_cases) simp_all

lemma fle_Infty: "\<not> is_nan x \<Longrightarrow> fle x (Infty False)"
  by (cases x) simp_all

lemma Infty_fle: "\<not> is_nan x \<Longrightarrow> fle (Infty True) x"
  by (cases x) simp_all

lemma fle_refl: "\<not> is_nan x \<Longrightarrow> fle x x"
  by (cases x) simp_all

lemma rnd_mono_pos:
  assumes "0 \<le> q" "q \<le> q'"
  shows "fle (rnd False q) (rnd False q')"
proof (cases q' False rule: rnd_cases)
  case (finite r')
  then obtain r where "round_mag q = Some r" "r \<le> r'"
    using round_mag_mono [OF assms] by auto
  then show ?thesis
    using finite by (simp add: rnd_def sval_def)
next
  case overflow
  then show ?thesis
    by (simp add: fle_Infty)
qed

lemma rnd_mono_neg:
  assumes "0 \<le> q" "q \<le> q'"
  shows "fle (rnd True q') (rnd True q)"
proof (cases q' True rule: rnd_cases)
  case (finite r')
  then obtain r where "round_mag q = Some r" "r \<le> r'"
    using round_mag_mono [OF assms] by auto
  then show ?thesis
    using finite by (simp add: rnd_def sval_def)
next
  case overflow
  then show ?thesis
    by (simp add: Infty_fle)
qed

lemma rnd_neg_le_pos:
  assumes "0 \<le> q" "0 \<le> q'"
  shows "fle (rnd True q) (rnd False q')"
proof (cases q True rule: rnd_cases)
  case neg: (finite r)
  show ?thesis
  proof (cases q' False rule: rnd_cases)
    case (finite r')
    then show ?thesis
      using neg round_mag_nonneg [OF assms(1) neg(1)] round_mag_nonneg [OF assms(2) finite(1)]
      by (simp add: sval_def)
  next
    case overflow
    then show ?thesis
      by (simp add: fle_Infty)
  qed
next
  case overflow
  then show ?thesis
    by (simp add: Infty_fle)
qed

lemma round_mag_0 [simp]: "round_mag 0 = Some 0"
  by (simp add: round_mag_def)

lemma rnd_0 [simp]: "rnd s 0 = Fin s 0"
  by (simp add: rnd_def)

lemma zero_fle_rnd: "0 \<le> q \<Longrightarrow> fle (Fin z 0) (rnd False q)"
proof (cases q False rule: rnd_cases)
  case (finite r)
  assume "0 \<le> q"
  then show ?thesis
    using finite round_mag_nonneg [of q r] by (simp add: sval_def)
next
  case overflow
  then show ?thesis by simp
qed

lemma rnd_fle_zero: "0 \<le> q \<Longrightarrow> fle (rnd True q) (Fin z 0)"
proof (cases q True rule: rnd_cases)
  case (finite r)
  assume "0 \<le> q"
  then show ?thesis
    using finite round_mag_nonneg [of q r] by (simp add: sval_def)
next
  case overflow
  then show ?thesis by simp
qed

lemma fadd_Fin: "fadd (Fin s q) (Fin t r) = sround (s \<and> t) (sval s q + sval t r)"
  by (simp add: sround_def Let_def)

lemma sround_not_nan [simp]: "\<not> is_nan (sround z v)"
  by (simp add: sround_def)

lemma sround_mono:
  assumes "v \<le> w"
  shows "fle (sround z v) (sround z' w)"
proof -
  consider "v = 0" "w = 0" | "v = 0" "0 < w" | "v < 0" "w = 0" | "v < 0" "0 < w"
    | "0 < v" "0 < w" | "v < 0" "w < 0"
    using assms by linarith
  then show ?thesis
  proof cases
    case 1
    then show ?thesis by (simp add: sround_def sval_def)
  next
    case 2
    then show ?thesis
      using zero_fle_rnd [of w z] by (simp add: sround_def)
  next
    case 3
    then show ?thesis
      using rnd_fle_zero [of "- v" z'] by (simp add: sround_def)
  next
    case 4
    then show ?thesis
      using rnd_neg_le_pos [of "- v" w] by (simp add: sround_def)
  next
    case 5
    then show ?thesis
      using rnd_mono_pos [of v w] assms by (simp add: sround_def)
  next
    case 6
    then show ?thesis
      using rnd_mono_neg [of "- w" "- v"] assms by (simp add: sround_def)
  qed
qed

lemma node_mono:
  assumes "0 \<le> r" "ss \<longrightarrow> r = 0" "i \<le> j"
  shows "fle (fadd (Fin sm qm) (fmul (Fin False (of_nat i)) (Fin ss r)))
             (fadd (Fin sm qm) (fmul (Fin False (of_nat j)) (Fin ss r)))"
proof (cases ss)
  case True
  then have e: "fmul (Fin False (of_nat i)) (Fin ss r) = Fin True 0"
    "fmul (Fin False (of_nat j)) (Fin ss r) = Fin True 0"
    using assms(2) by simp_all
  have "\<not> is_nan (fadd (Fin sm qm) (Fin True 0))"
    by (simp only: fadd_Fin sround_not_nan not_False_eq_True)
  then show ?thesis
    unfolding e by (rule fle_refl)
next
  case False
  have le: "0 \<le> of_nat i * r" "of_nat i * r \<le> of_nat j * r"
    using assms by (simp_all add: mult_right_mono)
  show ?thesis
  proof (cases "of_nat j * r" False rule: rnd_cases)
    case (finite p')
    then obtain p where p: "round_mag (of_nat i * r) = Some p" "p \<le> p'"
      using round_mag_mono [OF le] by auto
    have e: "fmul (Fin False (of_nat i)) (Fin ss r) = Fin False p"
      "fmul (Fin False (of_nat j)) (Fin ss r) = Fin False p'"
      using False p(1) finite(1) by (simp_all add: rnd_def)
    show ?thesis
      unfolding e fadd_Fin using p(2) by (intro sround_mono) (simp add: sval_def)
  next
    case overflow
    have "\<not> is_nan (fadd (Fin sm qm) (rnd False (of_nat i * r)))"
    proof (cases "of_nat i * r" False rule: rnd_cases)
      case (finite p)
      then show ?thesis by (simp only: fadd_Fin sround_not_nan not_False_eq_True)
    next
      case overflow
      then show ?thesis by simp
    qed
    then have "fle (fadd (Fin sm qm) (rnd False (of_nat i * r))) (Infty False)"
      by (rule fle_Infty)
    moreover have "fmul (Fin False (of_nat i)) (Fin ss r) = rnd False (of_nat i * r)"
      and "fadd (Fin sm qm) (fmul (Fin False (of_nat j)) (Fin ss r)) = Infty False"
      using False overflow by simp_all
    ultimately show ?thesis
      by (simp only:)
  qed
qed

lemma stride_finiteD:
  assumes "is_finite (fdiv (fsub mx mn) (Fin False k))" "fle mn mx" "0 \<le> k"
  obtains sm qm ss r where "mn = Fin sm qm" "fdiv (fsub mx mn) (Fin False k) = Fin ss r"
    "0 \<le> r" "ss \<longrightarrow> r = 0"
proof (cases mx)
  case NaN
  then show ?thesis using assms(2) by (cases mn) simp_all
next
  case (Infty s)
  then show ?thesis using assms(1) by (cases mn) (auto simp: fsub_def split: if_splits)
next
  case mx: (Fin sx qx)
  show ?thesis
  proof (cases mn)
    case NaN
    then show ?thesis using assms(2) by simp
  next
    case (Infty s)
    then show ?thesis using assms(1) mx by (simp add: fsub_def)
  next
    case mn: (Fin sm qm)
    let ?v = "sval sx qx + sval (\<not> sm) qm"
    have v: "0 \<le> ?v"
      using assms(2) by (simp add: mx mn sval_def split: if_splits)
    have l: "fsub mx mn = sround (sx \<and> \<not> sm) ?v"
      by (simp only: mx mn fsub_def fneg.simps fadd_Fin)
    show ?thesis
    proof (cases "?v = 0")
      case True
      then have "fdiv (fsub mx mn) (Fin False k) = Fin (sx \<and> \<not> sm) 0"
        using assms(1) unfolding l by (simp add: sround_def split: if_splits)
      then show ?thesis
        using mn by (intro that [of sm qm "sx \<and> \<not> sm" 0]) simp_all
    next
      case False
      then have l': "fsub mx mn = rnd False ?v"
        using v unfolding l by (simp add: sround_def)
      show ?thesis
      proof (cases ?v False rule: rnd_cases)
        case (finite ql)
        have ql: "0 \<le> ql"
          using round_mag_nonneg [OF v finite(1)] .
        have k: "k \<noteq> 0"
          using assms(1) unfolding l' finite(2) by (auto split: if_splits)
        then have d: "fdiv (fsub mx mn) (Fin False k) = rnd False (ql / k)"
          unfolding l' finite(2) by simp
        show ?thesis
        proof (cases "ql / k" False rule: rnd_cases)
          case inner: (finite r)
          have "0 \<le> ql / k"
            using ql assms(3) by simp
          then have "0 \<le> r"
            using inner(1) by (rule round_mag_nonneg)
          then show ?thesis
            using mn d inner(2) by (intro that [of sm qm False r]) simp_all
        next
          case overflow
          then show ?thesis
            using assms(1) unfolding d by simp
        qed
      next
        case overflow
        then show ?thesis
          using assms(1) unfolding l' by simp
      qed
    qed
  qed
qed

section \<open>Properties of the loops\<close>

lemma rd_Some [simp]: "i < length xs \<Longrightarrow> rd xs i = Some (xs ! i)"
  by (simp add: rd_def)

lemma rd_None [simp]: "\<not> i < length xs \<Longrightarrow> rd xs i = None"
  by (simp add: rd_def)

lemma wr_Some [simp]: "i < length xs \<Longrightarrow> wr xs i v = Some (xs[i := v])"
  by (simp add: wr_def)

lemma wr_None [simp]: "\<not> i < length xs \<Longrightarrow> wr xs i v = None"
  by (simp add: wr_def)


lemma nodeCount_loop_eq:
  "d \<le> unat (DIM g) \<Longrightarrow> length (N g) = unat (DIM g) \<Longrightarrow>
   nodeCount_loop g d c = Some (c * prod_list (drop d (N g)))"
proof (induction g d c rule: nodeCount_loop.induct)
  case (1 g d c)
  show ?case
  proof (cases "d < unat (DIM g)")
    case True
    then have dr: "drop d (N g) = N g ! d # drop (Suc d) (N g)"
      using 1(2-) by (simp add: Cons_nth_drop_Suc)
    have "nodeCount_loop g (Suc d) (c * N g ! d) =
            Some (c * N g ! d * prod_list (drop (Suc d) (N g)))"
      using True 1(2-) by (intro 1(1)) simp_all
    then show ?thesis
      using True 1(2-) dr by (subst nodeCount_loop.simps) (simp add: mult.assoc)
  next
    case False
    then show ?thesis
      using 1(2-) by (subst nodeCount_loop.simps) simp
  qed
qed

lemma cumN_loop_eq:
  "0 < d \<Longrightarrow> d \<le> unat (DIM g) \<Longrightarrow> length (N g) = unat (DIM g) \<Longrightarrow> length cs = unat (DIM g) \<Longrightarrow>
   \<forall>j<d. cs ! j = prod_list (take j (N g)) \<Longrightarrow>
   cumN_loop g d cs = Some (map (\<lambda>j. prod_list (take j (N g))) [0..<unat (DIM g)])"
proof (induction g d cs rule: cumN_loop.induct)
  case (1 g d cs)
  show ?case
  proof (cases "d < unat (DIM g)")
    case True
    let ?cs = "cs[d := cs ! (d - 1) * N g ! (d - 1)]"
    have step: "cumN_loop g d cs = cumN_loop g (Suc d) ?cs"
      using True 1(2-) by (subst cumN_loop.simps) simp
    have "cs ! (d - 1) * N g ! (d - 1) = prod_list (take d (N g))"
    proof -
      have "take d (N g) = take (d - 1) (N g) @ [N g ! (d - 1)]"
        using True 1(2-) by (metis Suc_pred' less_imp_diff_less take_Suc_conv_app_nth)
      then show ?thesis using 1(2-) by simp
    qed
    then have inv: "\<forall>j<Suc d. ?cs ! j = prod_list (take j (N g))"
      using 1(2-) True by (auto simp: nth_list_update less_Suc_eq)
    show ?thesis
      unfolding step
      using 1(1)[of "cs ! (d - 1)" "N g ! (d - 1)" ?cs] True 1(2-) inv by simp
  next
    case False
    then have "cs = map (\<lambda>j. prod_list (take j (N g))) [0..<unat (DIM g)]"
      using 1(2-) by (intro nth_equalityI) auto
    then show ?thesis
      using False by (subst cumN_loop.simps) simp
  qed
qed

lemma fill_loop_eq:
  "n \<le> cnt \<Longrightarrow> length row = cnt \<Longrightarrow>
   \<forall>j<n. row ! j = fadd mn (fmul (of_uint (of_nat j)) st) \<Longrightarrow>
   fill_loop mn st cnt n row = Some (map (\<lambda>j. fadd mn (fmul (of_uint (of_nat j)) st)) [0..<cnt])"
proof (induction mn st cnt n row rule: fill_loop.induct)
  case (1 mn st cnt n row)
  show ?case
  proof (cases "n < cnt")
    case True
    let ?row = "row[n := fadd mn (fmul (of_uint (of_nat n)) st)]"
    have step: "fill_loop mn st cnt n row = fill_loop mn st cnt (Suc n) ?row"
      using True 1(2-) by (subst fill_loop.simps) simp
    have inv: "\<forall>j<Suc n. ?row ! j = fadd mn (fmul (of_uint (of_nat j)) st)"
      using 1(2-) True by (auto simp: nth_list_update less_Suc_eq)
    show ?thesis
      unfolding step using 1(1)[of ?row] True 1(2-) inv by simp
  next
    case False
    then have "row = map (\<lambda>j. fadd mn (fmul (of_uint (of_nat j)) st)) [0..<cnt]"
      using 1(2-) by (intro nth_equalityI) auto
    then show ?thesis
      using False by (subst fill_loop.simps) simp
  qed
qed

lemma length_resize [simp]: "length (resize n v xs) = n"
  by (simp add: resize_def)

lemma raster_loop_eq:
  assumes "d \<le> unat (DIM g)"
    and "length (N g) = unat (DIM g)" "length (maxv g) = unat (DIM g)"
    and "length (minv g) = unat (DIM g)"
    and "length st = unat (DIM g)" "length si = unat (DIM g)" "length ra = unat (DIM g)"
    and "\<forall>j<d. st ! j = axis_stride g j \<and> si ! j = fdiv (Fin False 1) (axis_stride g j) \<and>
           ra ! j = map (axis_node g j) [0..<unat (N g ! j)]"
  shows "raster_loop g d st si ra =
           Some (map (axis_stride g) [0..<unat (DIM g)],
                 map (\<lambda>d. fdiv (Fin False 1) (axis_stride g d)) [0..<unat (DIM g)],
                 map (\<lambda>d. map (axis_node g d) [0..<unat (N g ! d)]) [0..<unat (DIM g)])"
  using assms
proof (induction g d st si ra rule: raster_loop.induct)
  case (1 g d st si ra)
  show ?case
  proof (cases "d < unat (DIM g)")
    case True
    let ?s = "axis_stride g d"
    let ?row = "map (axis_node g d) [0..<unat (N g ! d)]"
    let ?st = "st[d := ?s]" and ?si = "si[d := fdiv (Fin False 1) ?s]" and ?ra = "ra[d := ?row]"
    have fill: "fill_loop (minv g ! d) ?s (unat (N g ! d)) 0 (resize (unat (N g ! d)) (Fin False 0) (ra ! d))
                = Some ?row"
      by (subst fill_loop_eq) (auto simp: axis_node_def)
    have step: "raster_loop g d st si ra = raster_loop g (Suc d) ?st ?si ?ra"
      using True 1(2-) fill
      by (subst raster_loop.simps) (simp add: axis_stride_def Let_def)
    have inv: "\<forall>j<Suc d. ?st ! j = axis_stride g j \<and> ?si ! j = fdiv (Fin False 1) (axis_stride g j) \<and>
                 ?ra ! j = map (axis_node g j) [0..<unat (N g ! j)]"
      using 1(2-) True by (auto simp: nth_list_update less_Suc_eq)
    have "raster_loop g (Suc d) ?st ?si ?ra =
           Some (map (axis_stride g) [0..<unat (DIM g)],
                 map (\<lambda>d. fdiv (Fin False 1) (axis_stride g d)) [0..<unat (DIM g)],
                 map (\<lambda>d. map (axis_node g d) [0..<unat (N g ! d)]) [0..<unat (DIM g)])"
    proof (rule 1(1)[OF True])
      show "rd (maxv g) d = Some (maxv g ! d)" using True 1(2-) by simp
      show "rd (minv g) d = Some (minv g ! d)" using True 1(2-) by simp
      show "rd (N g) d = Some (N g ! d)" using True 1(2-) by simp
      show "wr st d ?s = Some ?st" using True 1(2-) by simp
      show "wr si d (fdiv (Fin False 1) ?s) = Some ?si" using True 1(2-) by simp
      show "rd ra d = Some (ra ! d)" using True 1(2-) by simp
      show "fill_loop (minv g ! d) ?s (unat (N g ! d)) 0
              (resize (unat (N g ! d)) (Fin False 0) (ra ! d)) = Some ?row" by (rule fill)
      show "wr ra d ?row = Some ?ra" using True 1(2-) by simp
    qed (use True 1(2-) inv in \<open>simp_all add: axis_stride_def\<close>)
    then show ?thesis unfolding step .
  next
    case False
    then have "st = map (axis_stride g) [0..<unat (DIM g)]"
      and "si = map (\<lambda>d. fdiv (Fin False 1) (axis_stride g d)) [0..<unat (DIM g)]"
      and "ra = map (\<lambda>d. map (axis_node g d) [0..<unat (N g ! d)]) [0..<unat (DIM g)]"
      using 1(2-) by (auto intro!: nth_equalityI)
    then show ?thesis
      using False by (subst raster_loop.simps) simp
  qed
qed

lemma rasterize_eq:
  assumes "sized g" and "0 < unat (DIM g)"
  shows "rasterize g = Some (rasterized g)"
proof -
  have len: "length (N g) = unat (DIM g)" "length (cumN g) = unat (DIM g)"
    using assms by (simp_all add: sized_def)
  have "N g = N g ! 0 # drop 1 (N g)"
    using len assms(2) by (cases "N g") auto
  then have "N g ! 0 * prod_list (drop 1 (N g)) = prod_list (N g)"
    by (metis prod_list.Cons)
  then have nc: "nodeCount_loop g 1 (N g ! 0) = Some (prod_list (N g))"
    using nodeCount_loop_eq[of 1 g "N g ! 0"] len assms(2) by simp
  have cs: "cumN_loop g 1 ((cumN g)[0 := 1]) =
              Some (map (\<lambda>d. prod_list (take d (N g))) [0..<unat (DIM g)])"
    using len assms(2) by (intro cumN_loop_eq) auto
  have ra: "raster_loop g 0 (stride g) (strideinv g) (raster g) =
           Some (map (axis_stride g) [0..<unat (DIM g)],
                 map (\<lambda>d. fdiv (Fin False 1) (axis_stride g d)) [0..<unat (DIM g)],
                 map (\<lambda>d. map (axis_node g d) [0..<unat (N g ! d)]) [0..<unat (DIM g)])"
    using assms(1) by (intro raster_loop_eq) (simp_all add: sized_def)
  show ?thesis
    using len assms(2) nc cs ra by (simp add: rasterize_def rasterized_def)
qed

lemma rasterize_SomeD:
  assumes "rasterize g = Some g'" and "sized g"
  shows "0 < unat (DIM g)" and "g' = rasterized g"
proof -
  show "0 < unat (DIM g)"
  proof (rule ccontr)
    assume "\<not> 0 < unat (DIM g)"
    then have "rd (N g) 0 = None" using assms(2) by (simp add: sized_def)
    then show False using assms(1) by (simp add: rasterize_def)
  qed
  then show "g' = rasterized g"
    using assms rasterize_eq by simp
qed

lemma convertIndex_loop_eq:
  "d \<le> unat (DIM g) \<Longrightarrow> unat (DIM g) \<le> length idx \<Longrightarrow> length (cumN g) = unat (DIM g) \<Longrightarrow>
   convertIndex_loop g idx d k =
     Some (k + sum_list (map (\<lambda>j. idx ! j * cumN g ! j) [d..<unat (DIM g)]))"
proof (induction g idx d k rule: convertIndex_loop.induct)
  case (1 g idx d k)
  show ?case
  proof (cases "d < unat (DIM g)")
    case True
    have "convertIndex_loop g idx (Suc d) (k + idx ! d * cumN g ! d) =
            Some (k + idx ! d * cumN g ! d +
                  sum_list (map (\<lambda>j. idx ! j * cumN g ! j) [Suc d..<unat (DIM g)]))"
      using True 1(2-) by (intro 1(1)) simp_all
    then show ?thesis
      using True 1(2-)
      by (subst convertIndex_loop.simps) (simp add: upt_conv_Cons add.assoc)
  next
    case False
    then show ?thesis
      using 1(2-) by (subst convertIndex_loop.simps) simp
  qed
qed

lemma sum_horner:
  "length is = length ns \<Longrightarrow>
   sum_list (map (\<lambda>j. is ! j * prod_list (take j ns)) [0..<length ns]) = horner ns is"
proof (induction ns "is" rule: horner.induct)
  case (1 n ns i "is")
  have "sum_list (map (\<lambda>j. (i # is) ! j * prod_list (take j (n # ns))) [0..<length (n # ns)])
        = i + sum_list (map (\<lambda>j. (i # is) ! Suc j * prod_list (take (Suc j) (n # ns))) [0..<length ns])"
    by (simp add: upt_conv_Cons map_Suc_upt [symmetric] comp_def del: upt_Suc)
  also have "\<dots> = i + n * sum_list (map (\<lambda>j. is ! j * prod_list (take j ns)) [0..<length ns])"
    by (simp add: sum_list_const_mult [symmetric] mult.assoc mult.left_commute ac_simps)
  finally show ?case using 1 by simp
qed simp_all

lemma convertIndex_rasterized:
  assumes "sized g" "0 < unat (DIM g)" "length idx = unat (DIM g)"
  shows "convertIndex (rasterized g) idx = Some (horner (N g) idx)"
proof -
  let ?g = "rasterized g"
  have D: "DIM ?g = DIM g" and len: "length (cumN ?g) = unat (DIM g)" "length (N g) = unat (DIM g)"
    using assms by (simp_all add: rasterized_def sized_def)
  have c: "\<And>j. j < unat (DIM g) \<Longrightarrow> cumN ?g ! j = prod_list (take j (N g))"
    by (simp add: rasterized_def)
  have "convertIndex ?g idx =
          Some (idx ! 0 + sum_list (map (\<lambda>j. idx ! j * cumN ?g ! j) [1..<unat (DIM g)]))"
    using assms len D convertIndex_loop_eq [of 1 ?g idx "idx ! 0"]
    by (simp add: convertIndex_def)
  also have "idx ! 0 + sum_list (map (\<lambda>j. idx ! j * cumN ?g ! j) [1..<unat (DIM g)])
             = sum_list (map (\<lambda>j. idx ! j * cumN ?g ! j) [0..<unat (DIM g)])"
    using assms(2) c [of 0] by (simp add: upt_conv_Cons)
  also have "\<dots> = sum_list (map (\<lambda>j. idx ! j * prod_list (take j (N g))) [0..<unat (DIM g)])"
    using c by (intro arg_cong [where f = sum_list] map_cong) auto
  also have "\<dots> = horner (N g) idx"
    using sum_horner [of idx "N g"] assms(3) len by simp
  finally show ?thesis .
qed

lemma convertIndex_flat_loop_eq:
  "d \<le> unat (DIM g) \<Longrightarrow> length (N g) = unat (DIM g) \<Longrightarrow> length buf = unat (DIM g) \<Longrightarrow>
   0 \<notin> set (drop d (N g)) \<Longrightarrow>
   convertIndex_flat_loop g d v buf =
     Some (take d buf @ map of_nat (digits (map unat (drop d (N g))) (unat v)))"
proof (induction g d v buf rule: convertIndex_flat_loop.induct)
  case (1 g d v buf)
  show ?case
  proof (cases "d < unat (DIM g)")
    case True
    let ?n = "N g ! d"
    have dr: "drop d (N g) = ?n # drop (Suc d) (N g)"
      using True 1(2-) by (simp add: Cons_nth_drop_Suc)
    then have n0: "?n \<noteq> 0" and rest: "0 \<notin> set (drop (Suc d) (N g))"
      using 1(5) by auto
    have "convertIndex_flat_loop g (Suc d) (v div ?n) (buf[d := v mod ?n]) =
            Some (take (Suc d) (buf[d := v mod ?n]) @
                  map of_nat (digits (map unat (drop (Suc d) (N g))) (unat (v div ?n))))"
      using True 1(2-) n0 rest by (intro 1(1)) simp_all
    moreover have "take (Suc d) (buf[d := v mod ?n]) = take d buf @ [v mod ?n]"
      using True 1(2-) by (simp add: take_Suc_conv_app_nth)
    moreover have "of_nat (unat v mod unat ?n) = v mod ?n"
      by (simp add: unat_mod [symmetric])
    ultimately show ?thesis
      using True 1(2-) n0 dr
      by (subst convertIndex_flat_loop.simps) (simp add: unat_div)
  next
    case False
    then show ?thesis
      using 1(2-) by (subst convertIndex_flat_loop.simps) simp
  qed
qed

lemma convertIndex_flat_rasterized:
  assumes "sized g" "0 \<notin> set (N g)"
  shows "convertIndex_flat (rasterized g) v = Some (map of_nat (digits (map unat (N g)) (unat v)))"
  using assms convertIndex_flat_loop_eq [of 0 "rasterized g" "idx_buf g" v]
  by (simp add: convertIndex_flat_def rasterized_def sized_def)

lemma horner_digits:
  "\<forall>n\<in>set ns. 0 < n \<Longrightarrow> horner ns (digits ns v) = v mod prod_list ns"
proof (induction ns arbitrary: v)
  case Nil
  then show ?case by simp
next
  case (Cons n ns)
  then have "horner ns (digits ns (v div n)) = (v div n) mod prod_list ns"
    by simp
  then show ?case
    by (simp add: mod_mult2_eq)
qed

lemma horner_less:
  "list_all2 (<) ds ns \<Longrightarrow> horner ns ds < (prod_list ns :: nat)"
proof (induction ds ns rule: list_all2_induct)
  case Nil
  then show ?case by simp
next
  case (Cons d ds n ns)
  have "d + n * horner ns ds \<le> d + n * (prod_list ns - 1)"
    using Cons by (intro add_left_mono mult_left_mono) auto
  also have "\<dots> < n * prod_list ns"
    using Cons by (cases "prod_list ns") (auto simp: algebra_simps)
  finally show ?case by simp
qed

lemma digits_horner:
  "list_all2 (<) ds (ns :: nat list) \<Longrightarrow> digits ns (horner ns ds) = ds"
  by (induction ds ns rule: list_all2_induct) auto

lemma horner_of_nat:
  "horner (map of_nat ns) (map of_nat ds) = (of_nat (horner ns ds) :: 'a::comm_semiring_1)"
  by (induction ns ds rule: horner.induct) simp_all

lemma prod_list_of_nat:
  "prod_list (map of_nat ns) = (of_nat (prod_list ns) :: 'a::comm_semiring_1)"
  by (induction ns) simp_all

lemma map_of_nat_unat_comp [simp]: "map (of_nat \<circ> unat) ws = (ws :: 'a::len word list)"
  by (induction ws) simp_all

lemma map_of_nat_unat: "map of_nat (map unat ws) = (ws :: 'a::len word list)"
  by simp



lemma length_digits [simp]: "length (digits ns v) = length ns"
  by (induction ns arbitrary: v) simp_all

lemma prod_list_zero:
  "(0 :: 'a::comm_semiring_1) \<in> set xs \<Longrightarrow> prod_list xs = 0"
  by (induction xs) auto

lemma unat_prod_list:
  "unat (prod_list ws :: 'a::len word) = prod_list (map unat ws) mod 2 ^ LENGTH('a)"
proof -
  have "prod_list ws = prod_list (map of_nat (map unat ws))"
    by (simp only: map_of_nat_unat)
  also have "\<dots> = of_nat (prod_list (map unat ws))"
    by (rule prod_list_of_nat)
  finally show ?thesis
    by (simp add: unat_of_nat)
qed

subsection \<open>Configuration\<close>

lemma copy_loop_eq:
  "d \<le> n \<Longrightarrow> n \<le> length src \<Longrightarrow> n \<le> length dst \<Longrightarrow> \<forall>j<d. dst ! j = src ! j \<Longrightarrow>
   copy_loop n src d dst = Some (take n src @ drop n dst)"
proof (induction n src d dst rule: copy_loop.induct)
  case (1 n src d dst)
  show ?case
  proof (cases "d < n")
    case True
    let ?dst = "dst[d := src ! d]"
    have "copy_loop n src (Suc d) ?dst = Some (take n src @ drop n ?dst)"
      using True 1(2-) by (intro 1(1)) (auto simp: nth_list_update less_Suc_eq)
    then show ?thesis
      using True 1(2-) by (subst copy_loop.simps) simp
  next
    case False
    then have "dst = take n src @ drop n dst"
      using 1(2-) by (intro nth_equalityI) (auto simp: nth_append)
    then show ?thesis
      using False by (subst copy_loop.simps) simp
  qed
qed

lemma copy_loop_all:
  "length src = n \<Longrightarrow> length dst = n \<Longrightarrow> copy_loop n src 0 dst = Some src"
  using copy_loop_eq [of 0 n src dst] by simp

lemma configure_eq:
  assumes "length ns = unat d" "length mn = unat d" "length mx = unat d"
  shows "configure d ns mn mx = Some (configured d ns mn mx)"
  using assms
  by (simp add: configure_def configured_def setDim_def setN_def setMin_def setMax_def
      Grid_new_def resize_def copy_loop_all)

lemma sized_configured:
  "length ns = unat d \<Longrightarrow> length mn = unat d \<Longrightarrow> length mx = unat d \<Longrightarrow>
   sized (configured d ns mn mx)"
  by (simp add: sized_def configured_def)

subsection \<open>Evaluation at concrete inputs\<close>

lemma floor_rat_numeral [simp]:
  "\<lfloor>(numeral a :: rat) / numeral b\<rfloor> = numeral a div numeral b"
  using floor_divide_of_int_eq [of "numeral a" "numeral b", where ?'a = rat] by simp

lemma ceiling_rat_numeral [simp]:
  "\<lceil>(numeral a :: rat) / numeral b\<rceil> = - ((- numeral a) div numeral b)"
  using ceiling_divide_eq_div [of "numeral a" "numeral b", where ?'a = rat] by simp

lemmas double_eval =
  rnd_def round_mag_def ilog2_def round_half_even_def Let_def sval_def fsub_def
  of_uint_def bit_length.simps

lemmas upt_eval = upt_rec [of _ "numeral n" for n]

lemma replicate_numeral [simp]:
  "replicate (numeral n) x = x # replicate (pred_numeral n) x"
  by (simp add: numeral_eq_Suc)

lemma rasterized_cfg3: "rasterized cfg3 = g3"
  by (simp add: rasterized_def cfg3_def configured_def g3_def axis_stride_def axis_node_def
      double_eval upt_eval)

lemma grid3_eq: "grid3 = Some g3"
proof -
  have "sized cfg3" by (simp add: cfg3_def sized_configured)
  then have "rasterize cfg3 = Some g3"
    using rasterize_eq [of cfg3] rasterized_cfg3 by (simp add: cfg3_def configured_def)
  then show ?thesis
    by (simp add: grid3_def make_grid_def configure_eq cfg3_def [symmetric])
qed


lemmas loop_eval =
  convertIndex_def convertIndex_loop.simps convertIndex_flat_def convertIndex_flat_loop.simps
  enumerateNeighborHood_def neighborhood_bounds.simps count_loop.simps copy_loop.simps
  neighborhood_loop.simps odometer.simps getEnvelopingNodes_def enveloping_bounds.simps
  enveloping_loop.simps getNodeIndexBl_def getNodeIndexBl_loop.simps containsPoint_def
  containsPoint_loop.simps qMin_def qMax_def qBound_def int_range_def fgt_def
  word_le_nat_alt word_less_nat_alt

lemma make_grid_eq:
  assumes "length ns = unat d" "length mn = unat d" "length mx = unat d" "0 < unat d"
  shows "make_grid d ns mn mx = Some (rasterized (configured d ns mn mx))"
proof -
  have "sized (configured d ns mn mx)"
    using assms by (simp add: sized_configured)
  moreover have "DIM (configured d ns mn mx) = d"
    by (simp add: configured_def)
  ultimately have "rasterize (configured d ns mn mx) = Some (rasterized (configured d ns mn mx))"
    using assms(4) by (simp add: rasterize_eq)
  then show ?thesis
    using assms by (simp add: make_grid_def configure_eq)
qed

lemma sized_cfg3: "sized cfg3"
  by (simp add: cfg3_def sized_configured)

lemma rasterize_cfg3: "rasterize cfg3 = Some g3"
  using rasterize_eq [OF sized_cfg3] rasterized_cfg3 by (simp add: cfg3_def configured_def)

subsection \<open>Further properties\<close>

lemma setDim_Grid_new: "setDim d (Grid_new d0) = setDim d (Grid_new 0)"
  by (simp add: setDim_def Grid_new_def)

lemma configure_cfg3:
  "configure 2 [3, 3] [Fin False 0, Fin False 0] [Fin False 2, Fin False 2] = Some cfg3"
  by (simp add: configure_eq cfg3_def)

lemma sized_setDim: "sized (setDim d g)"
  by (simp add: sized_def setDim_def)

lemma sized_rasterized: "sized g \<Longrightarrow> sized (rasterized g)"
  by (simp add: sized_def rasterized_def)

lemma rasterized_idem: "rasterized (rasterized g) = rasterized g"
  by (simp add: rasterized_def axis_stride_def axis_node_def)

lemma containsPoint_loop_eq:
  "d \<le> unat (DIM g) \<Longrightarrow> unat (DIM g) \<le> length x \<Longrightarrow> length (maxv g) = unat (DIM g) \<Longrightarrow>
   length (minv g) = unat (DIM g) \<Longrightarrow>
   containsPoint_loop g x d =
     Some (\<forall>j. d \<le> j \<and> j < unat (DIM g) \<longrightarrow> \<not> fgt (x ! j) (maxv g ! j) \<and> \<not> flt (x ! j) (minv g ! j))"
proof (induction g x d rule: containsPoint_loop.induct)
  case (1 g x d)
  show ?case
  proof (cases "d < unat (DIM g)")
    case True
    show ?thesis
    proof (cases "fgt (x ! d) (maxv g ! d) \<or> flt (x ! d) (minv g ! d)")
      case bad: True
      then have "containsPoint_loop g x d = Some False"
        using True 1(2-) by (subst containsPoint_loop.simps) auto
      moreover have "\<not> (\<forall>j. d \<le> j \<and> j < unat (DIM g) \<longrightarrow>
                      \<not> fgt (x ! j) (maxv g ! j) \<and> \<not> flt (x ! j) (minv g ! j))"
        using bad True by auto
      ultimately show ?thesis by simp
    next
      case ok: False
      have "containsPoint_loop g x (Suc d) =
              Some (\<forall>j. Suc d \<le> j \<and> j < unat (DIM g) \<longrightarrow>
                      \<not> fgt (x ! j) (maxv g ! j) \<and> \<not> flt (x ! j) (minv g ! j))"
        using True ok 1(2-) by (intro 1(1)) auto
      moreover have "(\<forall>j. Suc d \<le> j \<and> j < unat (DIM g) \<longrightarrow>
                      \<not> fgt (x ! j) (maxv g ! j) \<and> \<not> flt (x ! j) (minv g ! j)) \<longleftrightarrow>
                     (\<forall>j. d \<le> j \<and> j < unat (DIM g) \<longrightarrow>
                      \<not> fgt (x ! j) (maxv g ! j) \<and> \<not> flt (x ! j) (minv g ! j))"
        using ok by (metis Suc_leD Suc_leI le_neq_implies_less)
      ultimately show ?thesis
        using True ok 1(2-) by (subst containsPoint_loop.simps) simp
    qed
  next
    case False
    then show ?thesis
      using 1(2-) by (subst containsPoint_loop.simps) auto
  qed
qed

lemma not_flt_fle: "\<not> is_nan a \<Longrightarrow> \<not> is_nan b \<Longrightarrow> \<not> flt b a \<longleftrightarrow> fle a b"
  by (cases a; cases b) auto

subsection \<open>The neighbourhood enumeration\<close>

lemma neighborhood_bounds_eq:
  assumes "d \<le> unat (DIM g)" "unat (DIM g) \<le> length idx" "length (N g) = unat (DIM g)"
    and "length bmin = unat (DIM g)" "length bmax = unat (DIM g)"
    and "\<forall>j<d. bmin ! j = (if idx ! j < radius then 0 else idx ! j - radius) \<and>
               bmax ! j = qMin (idx ! j + radius) (N g ! j - 1)"
  shows "neighborhood_bounds g idx radius d bmin bmax =
           Some (map (\<lambda>j. if idx ! j < radius then 0 else idx ! j - radius) [0..<unat (DIM g)],
                 map (\<lambda>j. qMin (idx ! j + radius) (N g ! j - 1)) [0..<unat (DIM g)])"
  using assms
proof (induction g idx radius d bmin bmax rule: neighborhood_bounds.induct)
  case (1 g idx radius d bmin bmax)
  show ?case
  proof (cases "d < unat (DIM g)")
    case True
    let ?lo = "if idx ! d < radius then 0 else idx ! d - radius"
    let ?hi = "qMin (idx ! d + radius) (N g ! d - 1)"
    have "neighborhood_bounds g idx radius (Suc d) (bmin[d := ?lo]) (bmax[d := ?hi]) =
           Some (map (\<lambda>j. if idx ! j < radius then 0 else idx ! j - radius) [0..<unat (DIM g)],
                 map (\<lambda>j. qMin (idx ! j + radius) (N g ! j - 1)) [0..<unat (DIM g)])"
      using True 1(2-) by (intro 1(1)) (auto simp: nth_list_update less_Suc_eq)
    then show ?thesis
      using True 1(2-) by (subst neighborhood_bounds.simps) simp
  next
    case False
    then have "bmin = map (\<lambda>j. if idx ! j < radius then 0 else idx ! j - radius) [0..<unat (DIM g)]"
      and "bmax = map (\<lambda>j. qMin (idx ! j + radius) (N g ! j - 1)) [0..<unat (DIM g)]"
      using 1(2-) by (auto intro!: nth_equalityI)
    then show ?thesis
      using False by (subst neighborhood_bounds.simps) simp
  qed
qed

lemma count_loop_eq:
  "d \<le> n \<Longrightarrow> length bmin = n \<Longrightarrow> length bmax = n \<Longrightarrow>
   count_loop n bmin bmax d c =
     Some (c * prod_list (map (\<lambda>j. bmax ! j - bmin ! j + 1) [d..<n]))"
proof (induction n bmin bmax d c rule: count_loop.induct)
  case (1 n bmin bmax d c)
  show ?case
  proof (cases "d < n")
    case True
    have "count_loop n bmin bmax (Suc d) (c * (bmax ! d - bmin ! d + 1)) =
            Some (c * (bmax ! d - bmin ! d + 1) *
                  prod_list (map (\<lambda>j. bmax ! j - bmin ! j + 1) [Suc d..<n]))"
      using True 1(2-) by (intro 1(1)) simp_all
    then show ?thesis
      using True 1(2-) by (subst count_loop.simps) (simp add: upt_conv_Cons mult.assoc)
  next
    case False
    then show ?thesis
      using 1(2-) by (subst count_loop.simps) simp
  qed
qed

lemma prod_list_ones [simp]: "prod_list (map (\<lambda>_. 1) xs) = (1 :: 'a::comm_semiring_1)"
  by (induction xs) simp_all

lemma odometer_total:
  "length buf = n \<Longrightarrow> length bmin = n \<Longrightarrow> length bmax = n \<Longrightarrow>
   \<exists>buf'. odometer n bmin bmax d buf = Some buf' \<and> length buf' = n"
proof (induction n bmin bmax d buf rule: odometer.induct)
  case (1 n bmin bmax d buf)
  show ?case
  proof (cases "d < n")
    case True
    let ?buf1 = "buf[d := buf ! d + 1]"
    show ?thesis
    proof (cases "buf ! d + 1 \<le> bmax ! d")
      case stop: True
      then show ?thesis
        using True 1(2-) by (subst odometer.simps) simp
    next
      case carry: False
      have r1: "rd buf d = Some (buf ! d)" and r2: "rd bmax d = Some (bmax ! d)"
        and r3: "rd bmin d = Some (bmin ! d)"
        using True 1(2-) by simp_all
      have w1: "wr buf d (buf ! d + 1) = Some ?buf1"
        using True 1(2) by simp
      have w2: "wr ?buf1 d (bmin ! d) = Some (buf[d := bmin ! d])"
        using True 1(2) by simp
      have "\<exists>buf'. odometer n bmin bmax (Suc d) (buf[d := bmin ! d]) = Some buf' \<and> length buf' = n"
        using 1(1) [OF True r1 w1 r2 carry r3 w2] 1(2-) by simp
      then show ?thesis
        using True carry r1 r2 r3 w1 w2 by (subst odometer.simps) simp
    qed
  next
    case False
    then show ?thesis
      using 1(2-) by (subst odometer.simps) simp
  qed
qed

lemma convertIndex_total:
  assumes "0 < unat (DIM g)" "unat (DIM g) \<le> length idx" "length (cumN g) = unat (DIM g)"
  shows "\<exists>c. convertIndex g idx = Some c"
proof -
  have "0 < length idx"
    using assms(1,2) by linarith
  then show ?thesis
    using assms convertIndex_loop_eq [of 1 g idx "idx ! 0"]
    by (simp add: convertIndex_def)
qed

lemma neighborhood_loop_excludes:
  assumes "0 < unat (DIM g)" "length (cumN g) = unat (DIM g)" "length buf = unat (DIM g)"
    and "length bmin = unat (DIM g)" "length bmax = unat (DIM g)" "center \<notin> set acc"
  shows "\<exists>xs. neighborhood_loop g center bmin bmax nb i buf acc = Some xs \<and> center \<notin> set xs"
  using assms
proof (induction g center bmin bmax nb i buf acc rule: neighborhood_loop.induct)
  case (1 g center bmin bmax nb i buf acc)
  show ?case
  proof (cases "i < nb")
    case True
    obtain c where c: "convertIndex g buf = Some c"
      using convertIndex_total [of g buf] 1(2-) by auto
    obtain buf' where b: "odometer (unat (DIM g)) bmin bmax 0 buf = Some buf'"
      and lb: "length buf' = unat (DIM g)"
      using odometer_total [of buf "unat (DIM g)" bmin bmax 0] 1(2-) by auto
    let ?acc = "if c \<noteq> center then acc @ [c] else acc"
    have "center \<notin> set ?acc"
      using 1(7) by auto
    then have "\<exists>xs. neighborhood_loop g center bmin bmax nb (Suc i) buf' ?acc = Some xs \<and>
                 center \<notin> set xs"
      using True c b lb 1(2-6) by (intro 1(1)) simp_all
    then show ?thesis
      using True c b by (subst neighborhood_loop.simps) simp
  next
    case False
    then show ?thesis
      using 1(7) by (subst neighborhood_loop.simps) simp
  qed
qed

lemma neighborhood_loop_single:
  assumes "convertIndex g buf = Some center"
    and "odometer (unat (DIM g)) bmin bmax 0 buf = Some buf'"
  shows "neighborhood_loop g center bmin bmax 1 0 buf [] = Some []"
proof -
  have "neighborhood_loop g center bmin bmax 1 0 buf [] =
          neighborhood_loop g center bmin bmax 1 (Suc 0) buf' []"
    using assms by (subst neighborhood_loop.simps) simp
  also have "\<dots> = Some []"
    by (subst neighborhood_loop.simps) simp
  finally show ?thesis .
qed

text \<open>The skeleton of \<^verbatim>\<open>enumerateNeighborHood\<close> on a grid whose vectors have \<^verbatim>\<open>DIM\<close> cells.\<close>

lemma enumerateNeighborHood_excludes:
  assumes "0 < unat (DIM g)" "length (N g) = unat (DIM g)" "length (cumN g) = unat (DIM g)"
    and "length (idx_buf g) = unat (DIM g)" "unat (DIM g) \<le> length idx"
  shows "\<exists>c xs. convertIndex g idx = Some c \<and> enumerateNeighborHood g idx radius = Some xs \<and>
           c \<notin> set xs"
proof -
  let ?D = "unat (DIM g)"
  let ?bmin = "map (\<lambda>j. if idx ! j < radius then 0 else idx ! j - radius) [0..<?D]"
  let ?bmax = "map (\<lambda>j. qMin (idx ! j + radius) (N g ! j - 1)) [0..<?D]"
  obtain c where c: "convertIndex g idx = Some c"
    using convertIndex_total [of g idx] assms by auto
  have bounds: "neighborhood_bounds g idx radius 0 (replicate ?D 0) (replicate ?D 0) =
                  Some (?bmin, ?bmax)"
    using assms by (intro neighborhood_bounds_eq) simp_all
  obtain nb where nb: "count_loop ?D ?bmin ?bmax 0 1 = Some nb"
    using count_loop_eq [of 0 ?D ?bmin ?bmax 1] by simp
  have cp: "copy_loop ?D ?bmin 0 (idx_buf g) = Some ?bmin"
    using assms(4) by (intro copy_loop_all) simp_all
  obtain xs where "neighborhood_loop g c ?bmin ?bmax (unat nb) 0 ?bmin [] = Some xs"
    and "c \<notin> set xs"
    using neighborhood_loop_excludes [of g ?bmin ?bmin ?bmax c "[]" "unat nb" 0] assms
    by auto
  then show ?thesis
    using c bounds nb cp by (simp add: enumerateNeighborHood_def)
qed

lemma enumerateNeighborHood_radius0:
  assumes "0 < unat (DIM g)" "length (N g) = unat (DIM g)" "length (cumN g) = unat (DIM g)"
    and "length (idx_buf g) = unat (DIM g)" "list_all2 (<) idx (N g)"
  shows "enumerateNeighborHood g idx 0 = Some []"
proof -
  let ?D = "unat (DIM g)"
  let ?bmin = "map (\<lambda>j. if idx ! j < 0 then 0 else idx ! j - 0) [0..<?D]"
  let ?bmax = "map (\<lambda>j. qMin (idx ! j + 0) (N g ! j - 1)) [0..<?D]"
  have len: "length idx = ?D"
    using list_all2_lengthD [OF assms(5)] assms(2) by simp
  have lt: "\<And>j. j < ?D \<Longrightarrow> idx ! j < N g ! j"
    using assms(5) len by (simp add: list_all2_conv_all_nth)
  obtain c where c: "convertIndex g idx = Some c"
    using convertIndex_total [of g idx] assms len by auto
  have bounds: "neighborhood_bounds g idx 0 0 (replicate ?D 0) (replicate ?D 0) =
                  Some (?bmin, ?bmax)"
    using assms len by (intro neighborhood_bounds_eq) simp_all
  have bmin: "?bmin = idx"
    using len by (intro nth_equalityI) simp_all
  have bmax: "?bmax = idx"
  proof (intro nth_equalityI)
    show "length ?bmax = length idx" using len by simp
  next
    fix j assume "j < length ?bmax"
    then have j: "j < ?D" by simp
    have "idx ! j \<le> N g ! j - 1"
      using lt [OF j] by (rule less_imp_less_eq_dec)
    then have "qMin (idx ! j) (N g ! j - 1) = idx ! j"
      by (auto simp: qMin_def)
    then show "?bmax ! j = idx ! j" using j by simp
  qed
  have "count_loop ?D idx idx 0 1 = Some (1 * prod_list (map (\<lambda>j. idx ! j - idx ! j + 1) [0..<?D]))"
    using len by (intro count_loop_eq) simp_all
  then have nb: "count_loop ?D idx idx 0 1 = Some 1"
    by simp
  have cp: "copy_loop ?D idx 0 (idx_buf g) = Some idx"
    using assms(4) len by (intro copy_loop_all) simp_all
  obtain buf' where "odometer ?D idx idx 0 idx = Some buf'"
    using odometer_total [of idx ?D idx idx 0] len by auto
  then have "neighborhood_loop g c idx idx 1 0 idx [] = Some []"
    using c by (intro neighborhood_loop_single)
  then show ?thesis
    using c bounds nb cp unfolding bmin bmax by (simp add: enumerateNeighborHood_def)
qed

lemma raster_make_grid:
  assumes "length ns = unat d" "length mn = unat d" "length mx = unat d"
    and "a < unat d" "n < unat (ns ! a)"
  shows "make_grid d ns mn mx \<bind> (\<lambda>g. rd (raster g) a \<bind> (\<lambda>r. rd r n)) =
           Some (axis_node (configured d ns mn mx) a n)"
proof -
  have "make_grid d ns mn mx = Some (rasterized (configured d ns mn mx))"
    using assms by (intro make_grid_eq) simp_all
  moreover have "raster (rasterized (configured d ns mn mx)) ! a =
                   map (axis_node (configured d ns mn mx) a) [0..<unat (ns ! a)]"
    using assms(4) by (simp add: rasterized_def configured_def)
  ultimately show ?thesis
    using assms(4,5) by (simp add: rasterized_def configured_def)
qed

lemma raster_rasterized:
  "d < unat (DIM g) \<Longrightarrow>
   raster (rasterized g) ! d = map (axis_node g d) [0..<unat (N g ! d)]"
  by (simp add: rasterized_def)

lemma stride_rasterized:
  "d < unat (DIM g) \<Longrightarrow> stride (rasterized g) ! d = axis_stride g d"
  by (simp add: rasterized_def)

lemma rounding_merges_nodes:
  "make_grid 1 [3] [Fin False 10000000000000000] [Fin False 10000000000000002]
     \<bind> (\<lambda>g. rd (raster g) 0) =
   Some [Fin False 10000000000000000, Fin False 10000000000000000, Fin False 10000000000000002]"
proof -
  let ?c = "configured 1 [3] [Fin False 10000000000000000] [Fin False 10000000000000002]"
  have "make_grid 1 [3] [Fin False 10000000000000000] [Fin False 10000000000000002]
        = Some (rasterized ?c)"
    by (intro make_grid_eq) simp_all
  moreover have "raster (rasterized ?c) =
    [[Fin False 10000000000000000, Fin False 10000000000000000, Fin False 10000000000000002]]"
    by (simp add: rasterized_def configured_def axis_node_def axis_stride_def double_eval upt_eval)
  ultimately show ?thesis
    by simp
qed

subsection \<open>The vectors keep their sizes\<close>

lemma copy_loop_length:
  "copy_loop n src d dst = Some r \<Longrightarrow> length r = length dst"
proof (induction n src d dst rule: copy_loop.induct)
  case (1 n src d dst)
  show ?case
  proof (cases "d < n")
    case True
    then obtain v dst' where v: "rd src d = Some v" and w: "wr dst d v = Some dst'"
      and rest: "copy_loop n src (Suc d) dst' = Some r"
      using 1(2) by (subst (asm) copy_loop.simps) (auto split: bind_splits)
    have "length dst' = length dst"
      using w by (auto simp: wr_def split: if_splits)
    then show ?thesis
      using 1(1) [OF True v w rest] by simp
  next
    case False
    then show ?thesis
      using 1(2) by (subst (asm) copy_loop.simps) simp
  qed
qed

lemma sized_setN: "sized g \<Longrightarrow> setN ns g = Some g' \<Longrightarrow> sized g'"
  by (auto simp: setN_def sized_def dest: copy_loop_length)

lemma sized_setMin: "sized g \<Longrightarrow> setMin mn g = Some g' \<Longrightarrow> sized g'"
  by (auto simp: setMin_def sized_def dest: copy_loop_length)

lemma sized_setMax: "sized g \<Longrightarrow> setMax mx g = Some g' \<Longrightarrow> sized g'"
  by (auto simp: setMax_def sized_def dest: copy_loop_length)

lemma sized_configure:
  assumes "configure d ns mn mx = Some g"
  shows "sized g"
proof -
  obtain g1 g2 where "setN ns (setDim d (Grid_new 0)) = Some g1" "setMin mn g1 = Some g2"
    "setMax mx g2 = Some g"
    using assms by (auto simp: configure_def split: bind_splits)
  then show ?thesis
    using sized_setDim sized_setN sized_setMin sized_setMax by blast
qed

lemma sized_rasterize: "sized g \<Longrightarrow> rasterize g = Some g' \<Longrightarrow> sized g'"
  using rasterize_SomeD(2) [of g g'] by (simp add: sized_rasterized)

subsection \<open>Digits of a flat index\<close>

text \<open>
  The dimension index of a flat index below \<^verbatim>\<open>nodeCount\<close> consists of its mixed-radix
  digits, and the forward conversion maps these digits back to the flat index.
\<close>

lemma flat_index_digits:
  assumes "sized g0" and "rasterize g0 = Some g" and "flat < nodeCount g"
  shows "convertIndex_flat g flat = Some (map of_nat (digits (map unat (N g0)) (unat flat)))"
    and "convertIndex g (map of_nat (digits (map unat (N g0)) (unat flat))) = Some flat"
    and "0 \<notin> set (N g0)"
proof -
  have D: "0 < unat (DIM g0)" and g: "g = rasterized g0"
    using rasterize_SomeD [OF assms(2,1)] by simp_all
  let ?ns = "map unat (N g0)"
  let ?ds = "digits ?ns (unat flat)"
  have len: "length (N g0) = unat (DIM g0)"
    using assms(1) by (simp add: sized_def)
  have nc: "nodeCount g = prod_list (N g0)"
    by (simp add: g rasterized_def)
  have nz: "0 \<notin> set (N g0)"
  proof
    assume "0 \<in> set (N g0)"
    then have "nodeCount g = 0" by (simp add: nc prod_list_zero)
    then show False using assms(3) by simp
  qed
  then have pos: "\<forall>n\<in>set ?ns. 0 < n"
    by (auto simp: unat_gt_0)
  have "unat flat < unat (prod_list (N g0))"
    using assms(3) by (simp add: nc word_less_nat_alt)
  also have "\<dots> \<le> prod_list ?ns"
    by (simp add: unat_prod_list)
  finally have small: "unat flat < prod_list ?ns" .
  have "convertIndex_flat g flat = Some (map of_nat ?ds)"
    unfolding g using assms(1) nz by (rule convertIndex_flat_rasterized)
  moreover have "convertIndex g (map of_nat ?ds) = Some (horner (N g0) (map of_nat ?ds))"
    unfolding g using assms(1) D by (rule convertIndex_rasterized) (simp add: len)
  moreover have "horner (N g0) (map of_nat ?ds) = flat"
  proof -
    have "horner (N g0) (map of_nat ?ds) = horner (map of_nat ?ns) (map of_nat ?ds)"
      by (simp only: map_of_nat_unat)
    also have "\<dots> = of_nat (horner ?ns ?ds)"
      by (rule horner_of_nat)
    also have "horner ?ns ?ds = unat flat"
      using horner_digits [OF pos, of "unat flat"] small by simp
    finally show ?thesis by simp
  qed
  ultimately show "convertIndex_flat g flat = Some (map of_nat ?ds)"
    and "convertIndex g (map of_nat ?ds) = Some flat"
    by simp_all
  show "0 \<notin> set (N g0)"
    by (rule nz)
qed

lemma digits_less: "\<forall>n\<in>set ns. 0 < n \<Longrightarrow> list_all2 (<) (digits ns v) ns"
  by (induction ns arbitrary: v) simp_all

lemma word_digits_less:
  fixes ws :: "uint list"
  assumes "0 \<notin> set ws"
  shows "list_all2 (<) (map of_nat (digits (map unat ws) v)) ws"
proof -
  have "\<forall>n\<in>set (map unat ws). 0 < n"
    using assms by (auto simp: unat_gt_0)
  then have "list_all2 (<) (digits (map unat ws) v) (map unat ws)"
    by (rule digits_less)
  then have "\<And>j. j < length ws \<Longrightarrow> digits (map unat ws) v ! j < unat (ws ! j)"
    by (simp add: list_all2_conv_all_nth)
  then have "\<And>j. j < length ws \<Longrightarrow> (of_nat (digits (map unat ws) v ! j) :: uint) < ws ! j"
    by (metis le_unat_uoi less_imp_le word_less_nat_alt)
  then show ?thesis
    by (simp add: list_all2_conv_all_nth)
qed

lemma convertIndex_idx_buf [simp]:
  "convertIndex (g\<lparr>idx_buf := b\<rparr>) idx = convertIndex g idx"
proof -
  have "convertIndex_loop (g\<lparr>idx_buf := b\<rparr>) idx d k = convertIndex_loop g idx d k" for d k
  proof (induction g idx d k rule: convertIndex_loop.induct)
    case (1 g idx d k)
    show ?case
    proof (cases "d < unat (DIM g) \<and> d < length idx \<and> d < length (cumN g)")
      case True
      then show ?thesis
        using 1 [of "idx ! d" "cumN g ! d"]
        by (subst (1 2) convertIndex_loop.simps) simp
    next
      case False
      then show ?thesis
        by (subst (1 2) convertIndex_loop.simps) auto
    qed
  qed
  then show ?thesis
    by (simp add: convertIndex_def)
qed

lemma neighborhood_flat_excludes_center:
  assumes "sized g0" and "rasterize g0 = Some g" and "n < nodeCount g"
  shows "enumerateNeighborHood_flat g n 0 = Some [] \<and>
         (\<exists>xs. enumerateNeighborHood_flat g n radius = Some xs \<and> n \<notin> set xs)"
proof -
  have D: "0 < unat (DIM g0)" and g: "g = rasterized g0"
    using rasterize_SomeD [OF assms(2,1)] by simp_all
  let ?idx = "map of_nat (digits (map unat (N g0)) (unat n)) :: uint list"
  let ?g = "g\<lparr>idx_buf := ?idx\<rparr>"
  have nz: "0 \<notin> set (N g0)" and flat: "convertIndex_flat g n = Some ?idx"
    and "convertIndex g ?idx = Some n"
    using flat_index_digits [OF assms] by simp_all
  then have center: "convertIndex ?g ?idx = Some n"
    by simp
  have len: "length (N g0) = unat (DIM g0)" "length (cumN g) = unat (DIM g0)"
    using assms(1) by (simp_all add: sized_def g rasterized_def)
  have in_range: "list_all2 (<) ?idx (N ?g)"
    using word_digits_less [OF nz] by (simp add: g rasterized_def)
  have pre: "0 < unat (DIM ?g)" "length (N ?g) = unat (DIM ?g)"
    "length (cumN ?g) = unat (DIM ?g)" "length (idx_buf ?g) = unat (DIM ?g)"
    using D len by (simp_all add: g rasterized_def)
  have "unat (DIM ?g) \<le> length ?idx"
    using len by (simp add: g rasterized_def)
  then show ?thesis
    using enumerateNeighborHood_radius0 [OF pre in_range]
      enumerateNeighborHood_excludes [OF pre, of ?idx radius] center flat
    by (simp add: enumerateNeighborHood_flat_def)
qed

section \<open>The claims\<close>

text \<open>
  A rasterized grid is the result \<open>g\<close> of \<^verbatim>\<open>rasterize\<close> on a grid \<open>g0\<close> whose vectors have
  \<^verbatim>\<open>DIM\<close> cells (\<open>sized g0\<close>), as every grid has after \<^verbatim>\<open>setDim\<close>
  (\<open>sized_setDim\<close>, \<open>sized_setN\<close>, \<open>sized_setMin\<close>, \<open>sized_setMax\<close>). \<open>cfg3\<close> and
  \<open>g3\<close> are the 3 by 3 grid before and after \<^verbatim>\<open>rasterize\<close>.
\<close>

text \<open>
  \<^bold>\<open>C1.\<close> On a rasterized grid, converting a flat index below \<^verbatim>\<open>nodeCount\<close> to a
  dimension index (\<^verbatim>\<open>convertIndex(uint)\<close>) and back (\<^verbatim>\<open>convertIndex(const uint*)\<close>)
  returns the same flat index; both conversions are defined there. This holds also when
  the products of the node counts wrap around.
\<close>

theorem flat_roundtrip:
  assumes "sized g0" and "rasterize g0 = Some g" and "flat < nodeCount g"
  shows "convertIndex_flat g flat \<bind> convertIndex g = Some flat"
  using flat_index_digits(1,2) [OF assms] by simp

theorem flat_roundtrip_witness:
  "sized cfg3 \<and> rasterize cfg3 = Some g3 \<and> 4 < nodeCount g3 \<and>
   convertIndex_flat g3 4 \<bind> convertIndex g3 = Some 4"
proof -
  have "(4 :: uint) < nodeCount g3"
    by (simp add: g3_def)
  then show ?thesis
    using flat_roundtrip [OF sized_cfg3 rasterize_cfg3, of 4] sized_cfg3 rasterize_cfg3
    by simp
qed

text \<open>
  \<^bold>\<open>C2.\<close> \<^verbatim>\<open>getEnvelopingNodes\<close> computes its lower bounds as
  \<^verbatim>\<open>qMax(idx[d]-radius, (uint)0)\<close>. The subtraction is unsigned: when the radius exceeds
  \<^verbatim>\<open>idx[d]\<close> it wraps around to a number near \<open>2^32\<close>, and the maximum with 0 changes
  nothing. On the 3 by 3 grid, for the point \<open>(0.5, 0.5)\<close> and radius 1, the bottom-left
  node is \<open>[0,0]\<close>, the lower bounds become \<open>2^32 - 1\<close> on both axes, and the function
  returns 16 flat indices, among them 4294967292 to 4294967295, which belong to no node,
  instead of the 9 nodes of the box \<open>[0,2] \<times> [0,2]\<close>. \<^verbatim>\<open>enumerateNeighborHood\<close> guards
  the same subtraction with \<^verbatim>\<open>(idx[d] < radius)? (uint)0 : (idx[d] - radius)\<close>.
\<close>

theorem enveloping_nodes_wrap:
  "grid3 \<bind> (\<lambda>g. getNodeIndexBl g [Fin False (1 / 2), Fin False (1 / 2)]) = Some [0, 0] \<and>
   grid3 \<bind> (\<lambda>g. getEnvelopingNodes g [Fin False (1 / 2), Fin False (1 / 2)] 1) =
     Some [4294967292, 4294967293, 4294967294, 4294967295, 4294967295, 0, 1, 2, 2,
           3, 4, 5, 5, 6, 7, 8]"
proof -
  have "getNodeIndexBl g3 [Fin False (1 / 2), Fin False (1 / 2)] = Some [0, 0]"
    by (simp add: g3_def loop_eval double_eval)
  moreover have "getEnvelopingNodes g3 [Fin False (1 / 2), Fin False (1 / 2)] 1 =
     Some [4294967292, 4294967293, 4294967294, 4294967295, 4294967295, 0, 1, 2, 2,
           3, 4, 5, 5, 6, 7, 8]"
    by (simp add: g3_def loop_eval double_eval)
  ultimately show ?thesis
    by (simp add: grid3_eq)
qed

text \<open>
  \<^bold>\<open>C3.\<close> On a rasterized grid, for a centre whose dimension index lies within the node
  counts, \<^verbatim>\<open>enumerateNeighborHood\<close> with radius 0 returns the empty sequence; and for
  every radius it returns a sequence that does not contain the flat index of the centre.
  (The comment above the function says that radius 0 returns the centre itself; the loop
  skips every point whose flat index equals the centre's.) For a centre given by its flat
  index, \<open>neighborhood_flat_excludes_center\<close> above states the same of
  \<^verbatim>\<open>enumerateNeighborHood(uint, uint)\<close>.
\<close>

theorem neighborhood_excludes_center:
  assumes "sized g0" and "rasterize g0 = Some g" and "list_all2 (<) idx (N g)"
  shows "enumerateNeighborHood g idx 0 = Some [] \<and>
         (\<exists>c xs. convertIndex g idx = Some c \<and> enumerateNeighborHood g idx radius = Some xs \<and>
                  c \<notin> set xs)"
proof -
  have D: "0 < unat (DIM g0)" and g: "g = rasterized g0"
    using rasterize_SomeD [OF assms(2,1)] by simp_all
  have sz: "sized g"
    using assms(1) by (simp add: g sized_rasterized)
  then have len: "length (N g) = unat (DIM g)" "length (cumN g) = unat (DIM g)"
    "length (idx_buf g) = unat (DIM g)"
    by (simp_all add: sized_def)
  have Dg: "0 < unat (DIM g)"
    using D by (simp add: g rasterized_def)
  have "unat (DIM g) \<le> length idx"
    using list_all2_lengthD [OF assms(3)] len by simp
  then show ?thesis
    using enumerateNeighborHood_radius0 [OF Dg len assms(3)]
      enumerateNeighborHood_excludes [OF Dg len, of idx radius]
    by simp
qed

theorem neighborhood_excludes_center_witness:
  "sized cfg3 \<and> rasterize cfg3 = Some g3 \<and> list_all2 (<) [1, 1] (N g3) \<and>
   enumerateNeighborHood g3 [1, 1] 0 = Some [] \<and>
   (\<exists>c xs. convertIndex g3 [1, 1] = Some c \<and> enumerateNeighborHood g3 [1, 1] 1 = Some xs \<and>
            c \<notin> set xs)"
proof -
  have "list_all2 (<) [1, 1] (N g3)"
    by (simp add: g3_def)
  then show ?thesis
    using neighborhood_excludes_center [OF sized_cfg3 rasterize_cfg3, of "[1, 1]" 1]
      sized_cfg3 rasterize_cfg3
    by simp
qed

text \<open>
  \<^bold>\<open>C4.\<close> The raster of an axis is not always strictly increasing when the axis has at
  least two nodes and its upper bound is not below its lower bound: with equal bounds the
  stride is 0 and every node of the axis is the lower bound. Excluding equal bounds is
  not enough either, since neighbouring nodes can round to the same double: three nodes
  on \<open>[10^16, 10^16 + 2]\<close> have the stride 1, and \<open>10^16 + 1\<close> rounds to \<open>10^16\<close>. What
  holds is that the raster never decreases: on every axis whose upper bound is not below
  its lower bound and whose stride is a finite number (the bounds are finite, their
  difference does not overflow, and the axis has not exactly one node), the coordinates
  are in non-decreasing order.
\<close>

theorem raster_nondecreasing:
  assumes "sized g0" and "rasterize g0 = Some g" and "d < unat (DIM g)"
    and "fle (minv g ! d) (maxv g ! d)" and "is_finite (stride g ! d)"
  shows "sorted_wrt fle (raster g ! d)"
proof -
  have g: "g = rasterized g0"
    using rasterize_SomeD [OF assms(2,1)] by simp
  have d: "d < unat (DIM g0)"
    using assms(3) by (simp add: g rasterized_def)
  let ?k = "of_nat (unat (N g0 ! d - 1)) :: rat"
  have st: "stride g ! d = fdiv (fsub (maxv g0 ! d) (minv g0 ! d)) (Fin False ?k)"
    using d by (simp add: g stride_rasterized axis_stride_def of_uint_def)
  have le: "fle (minv g0 ! d) (maxv g0 ! d)"
    using assms(4) by (simp add: g rasterized_def)
  have k0: "0 \<le> ?k"
    by (rule of_nat_0_le_iff)
  obtain sm qm ss r where mn: "minv g0 ! d = Fin sm qm"
    and s: "fdiv (fsub (maxv g0 ! d) (minv g0 ! d)) (Fin False ?k) = Fin ss r"
    and r: "0 \<le> r" "ss \<longrightarrow> r = 0"
    using stride_finiteD [OF assms(5) [unfolded st] le k0] by blast
  have node: "axis_node g0 d n = fadd (Fin sm qm) (fmul (Fin False (of_nat n)) (Fin ss r))"
    if "n < unat (N g0 ! d)" for n
  proof -
    have "unat (of_nat n :: uint) = n"
      using that by (simp add: le_unat_uoi [of n "N g0 ! d"])
    then show ?thesis
      using s by (simp add: axis_node_def axis_stride_def of_uint_def mn)
  qed
  have "sorted_wrt (\<lambda>i j. fle (axis_node g0 d i) (axis_node g0 d j)) [0..<unat (N g0 ! d)]"
  proof (rule sorted_wrt_mono_rel [of _ "(<)"])
    fix i j
    assume "i \<in> set [0..<unat (N g0 ! d)]" "j \<in> set [0..<unat (N g0 ! d)]" "i < j"
    then show "fle (axis_node g0 d i) (axis_node g0 d j)"
      using node_mono [OF r, of i j sm qm] by (simp add: node)
  qed simp
  then show ?thesis
    using d by (simp add: g raster_rasterized sorted_wrt_map)
qed

theorem raster_nondecreasing_witness:
  "sized cfg3 \<and> rasterize cfg3 = Some g3 \<and> 0 < unat (DIM g3) \<and>
   fle (minv g3 ! 0) (maxv g3 ! 0) \<and> is_finite (stride g3 ! 0) \<and>
   sorted_wrt fle (raster g3 ! 0)"
proof -
  have h: "0 < unat (DIM g3)" "fle (minv g3 ! 0) (maxv g3 ! 0)" "is_finite (stride g3 ! 0)"
    by (simp_all add: g3_def sval_def)
  show ?thesis
    using raster_nondecreasing [OF sized_cfg3 rasterize_cfg3 h] sized_cfg3 rasterize_cfg3 h
    by simp
qed

theorem strictly_increasing_counterexample:
  "make_grid 1 [2] [Fin False 0] [Fin False 0] \<bind> (\<lambda>g. rd (raster g) 0) =
     Some [Fin False 0, Fin False 0] \<and>
   \<not> sorted_wrt flt [Fin False 0, Fin False 0] \<and>
   (2 :: uint) \<le> 2 \<and> fle (Fin False 0) (Fin False 0) \<and>
   make_grid 1 [3] [Fin False 10000000000000000] [Fin False 10000000000000002]
     \<bind> (\<lambda>g. rd (raster g) 0) =
     Some [Fin False 10000000000000000, Fin False 10000000000000000,
           Fin False 10000000000000002] \<and>
   \<not> sorted_wrt flt [Fin False 10000000000000000, Fin False 10000000000000000,
                      Fin False 10000000000000002] \<and>
   (2 :: uint) \<le> 3 \<and> flt (Fin False 10000000000000000) (Fin False 10000000000000002)"
proof -
  let ?c = "configured 1 [2] [Fin False 0] [Fin False 0]"
  have "make_grid 1 [2] [Fin False 0] [Fin False 0] = Some (rasterized ?c)"
    by (intro make_grid_eq) simp_all
  moreover have "raster (rasterized ?c) = [[Fin False 0, Fin False 0]]"
    by (simp add: rasterized_def configured_def axis_node_def axis_stride_def double_eval upt_eval)
  ultimately show ?thesis
    using rounding_merges_nodes by (simp add: sval_def word_le_nat_alt)
qed

text \<open>
  \<^bold>\<open>C5.\<close> The header comment of \<^verbatim>\<open>Grid.cpp\<close> and the comment of \<^verbatim>\<open>rasterize\<close> say that
  the first node of an axis is located at the minimum and the last node at the maximum.
  The last node is computed as \<^verbatim>\<open>min[d] + (N[d]-1)*stride[d]\<close> with the rounded stride
  \<^verbatim>\<open>(max[d]-min[d])/(N[d]-1)\<close>, and the product does not always round back to the
  length of the axis. With 50 nodes on \<open>[0, 1]\<close> the stride is the double nearest to
  \<open>1/49\<close> and the last node is \<open>1 - 2^-53\<close>, below the maximum. With 148 nodes on
  \<open>[0, 10]\<close> the last node is \<open>10 + 2^-49\<close>, above the maximum, and \<^verbatim>\<open>containsPoint\<close>
  rejects this node of the grid.
\<close>

theorem last_node_misses_max:
  "make_grid 1 [50] [Fin False 0] [Fin False 1] \<bind> (\<lambda>g. rd (raster g) 0 \<bind> (\<lambda>r. rd r 49)) =
     Some (Fin False (9007199254740991 / 9007199254740992)) \<and>
   \<not> feq (Fin False (9007199254740991 / 9007199254740992)) (Fin False 1) \<and>
   make_grid 1 [148] [Fin False 0] [Fin False 10] \<bind> (\<lambda>g. rd (raster g) 0 \<bind> (\<lambda>r. rd r 147)) =
     Some (Fin False (5629499534213121 / 562949953421312)) \<and>
   flt (Fin False 10) (Fin False (5629499534213121 / 562949953421312)) \<and>
   make_grid 1 [148] [Fin False 0] [Fin False 10]
     \<bind> (\<lambda>g. containsPoint g [Fin False (5629499534213121 / 562949953421312)]) = Some False"
proof -
  have "make_grid 1 [148] [Fin False 0] [Fin False 10] =
          Some (rasterized (configured 1 [148] [Fin False 0] [Fin False 10]))"
    by (intro make_grid_eq) simp_all
  moreover have "containsPoint (rasterized (configured 1 [148] [Fin False 0] [Fin False 10]))
          [Fin False (5629499534213121 / 562949953421312)] = Some False"
    by (simp add: containsPoint_def containsPoint_loop.simps rasterized_def configured_def
        fgt_def sval_def)
  moreover have "axis_node (configured 1 [50] [Fin False 0] [Fin False 1]) 0 49 =
          Fin False (9007199254740991 / 9007199254740992)"
    by (simp add: axis_node_def axis_stride_def configured_def double_eval)
  moreover have "axis_node (configured 1 [148] [Fin False 0] [Fin False 10]) 0 147 =
          Fin False (5629499534213121 / 562949953421312)"
    by (simp add: axis_node_def axis_stride_def configured_def double_eval)
  ultimately show ?thesis
    using raster_make_grid [of "[50]" 1 "[Fin False 0]" "[Fin False 1]" 0 49]
      raster_make_grid [of "[148]" 1 "[Fin False 0]" "[Fin False 10]" 0 147]
    by (simp add: sval_def)
qed

text \<open>
  \<^bold>\<open>C6.\<close> On the 3 by 3 grid over \<open>[0,2] \<times> [0,2]\<close>, the neighbourhood of radius 1 of the
  corner node \<open>[0,0]\<close> (flat index 0) is the sequence \<open>[1, 3, 4]\<close>: the flat indices of
  \<open>[1,0]\<close>, \<open>[0,1]\<close> and \<open>[1,1]\<close>, in the order of the odometer (dimension 0 fastest).
\<close>

theorem corner_neighborhood:
  "grid3 \<bind> (\<lambda>g. enumerateNeighborHood g [0, 0] 1) = Some [1, 3, 4] \<and>
   grid3 \<bind> (\<lambda>g. enumerateNeighborHood_flat g 0 1) = Some [1, 3, 4] \<and>
   grid3 \<bind> (\<lambda>g. convertIndex g [1, 0]) = Some 1 \<and>
   grid3 \<bind> (\<lambda>g. convertIndex g [0, 1]) = Some 3 \<and>
   grid3 \<bind> (\<lambda>g. convertIndex g [1, 1]) = Some 4"
proof -
  have "enumerateNeighborHood g3 [0, 0] 1 = Some [1, 3, 4]"
    by (simp add: g3_def loop_eval)
  moreover have "enumerateNeighborHood_flat g3 0 1 = Some [1, 3, 4]"
    by (simp add: enumerateNeighborHood_flat_def g3_def loop_eval)
  moreover have "convertIndex g3 [1, 0] = Some 1" "convertIndex g3 [0, 1] = Some 3"
    "convertIndex g3 [1, 1] = Some 4"
    by (simp_all add: g3_def loop_eval)
  ultimately show ?thesis
    by (simp add: grid3_eq)
qed

text \<open>
  \<^bold>\<open>C7.\<close> The 3 by 3 grid over \<open>[0,2] \<times> [0,2]\<close> after \<^verbatim>\<open>rasterize\<close>: the raster of axis 0
  is \<open>[0, 1, 2]\<close>, the strides are \<open>[1, 1]\<close>, there are 9 nodes, the dimension index
  \<open>[1,1]\<close> has the flat index 4, and the flat index 4 has the dimension index \<open>[1,1]\<close>.
\<close>

theorem grid3_example:
  "grid3 \<bind> (\<lambda>g. rd (raster g) 0) = Some [Fin False 0, Fin False 1, Fin False 2] \<and>
   map_option stride grid3 = Some [Fin False 1, Fin False 1] \<and>
   map_option nodeCount grid3 = Some 9 \<and>
   grid3 \<bind> (\<lambda>g. convertIndex g [1, 1]) = Some 4 \<and>
   grid3 \<bind> (\<lambda>g. convertIndex_flat g 4) = Some [1, 1]"
proof -
  have "convertIndex g3 [1, 1] = Some 4" and "convertIndex_flat g3 4 = Some [1, 1]"
    by (simp_all add: g3_def loop_eval)
  moreover have "rd (raster g3) 0 = Some [Fin False 0, Fin False 1, Fin False 2]"
    and "stride g3 = [Fin False 1, Fin False 1]" and "nodeCount g3 = 9"
    by (simp_all add: g3_def)
  ultimately show ?thesis
    by (simp add: grid3_eq)
qed

text \<open>
  \<^bold>\<open>C8.\<close> \<^verbatim>\<open>containsPoint\<close> returns \<^verbatim>\<open>false\<close> when \<^verbatim>\<open>x[d] > max[d] || x[d] < min[d]\<close>
  on some axis. For numbers that is the negation of \<open>min[d] \<le> x[d] \<le> max[d]\<close>, and the
  function returns true exactly for the points within the bounds. A NaN compares false
  with everything: a point with a NaN coordinate is reported as contained although it
  is not within the bounds. The equivalence holds when no coordinate of the point and no
  bound is a NaN.
\<close>

theorem containsPoint_iff:
  assumes "sized g0" and "rasterize g0 = Some g" and "length x = unat (DIM g)"
    and "list_all (\<lambda>v. \<not> is_nan v) (x @ minv g @ maxv g)"
  shows "containsPoint g x = Some (within_bounds g x)"
proof -
  have g: "g = rasterized g0"
    using rasterize_SomeD [OF assms(2,1)] by simp
  have len: "length (maxv g) = unat (DIM g)" "length (minv g) = unat (DIM g)"
    using assms(1) by (simp_all add: g rasterized_def sized_def)
  have nn: "\<And>j. j < unat (DIM g) \<Longrightarrow> \<not> is_nan (x ! j) \<and> \<not> is_nan (minv g ! j) \<and> \<not> is_nan (maxv g ! j)"
    using assms(3,4) len by (auto simp: list_all_iff)
  have "containsPoint g x =
          Some (\<forall>j. 0 \<le> j \<and> j < unat (DIM g) \<longrightarrow> \<not> fgt (x ! j) (maxv g ! j) \<and> \<not> flt (x ! j) (minv g ! j))"
    unfolding containsPoint_def using assms(3) len by (intro containsPoint_loop_eq) simp_all
  also have "(\<forall>j. 0 \<le> j \<and> j < unat (DIM g) \<longrightarrow> \<not> fgt (x ! j) (maxv g ! j) \<and> \<not> flt (x ! j) (minv g ! j))
             \<longleftrightarrow> within_bounds g x"
    using nn by (auto simp: within_bounds_def list_all_length fgt_def not_flt_fle)
  finally show ?thesis .
qed

theorem containsPoint_iff_witness:
  "sized cfg3 \<and> rasterize cfg3 = Some g3 \<and> length [Fin False 2, Fin False 2] = unat (DIM g3) \<and>
   list_all (\<lambda>v. \<not> is_nan v) ([Fin False 2, Fin False 2] @ minv g3 @ maxv g3) \<and>
   containsPoint g3 [Fin False 2, Fin False 2] = Some True \<and>
   within_bounds g3 [Fin False 2, Fin False 2]"
proof -
  have h: "length [Fin False 2, Fin False 2] = unat (DIM g3)"
    "list_all (\<lambda>v. \<not> is_nan v) ([Fin False 2, Fin False 2] @ minv g3 @ maxv g3)"
    by (simp_all add: g3_def)
  have w: "within_bounds g3 [Fin False 2, Fin False 2]"
    by (simp add: within_bounds_def g3_def upt_eval sval_def)
  show ?thesis
    using containsPoint_iff [OF sized_cfg3 rasterize_cfg3 h] sized_cfg3 rasterize_cfg3 h w
    by simp
qed

theorem containsPoint_nan_counterexample:
  "grid3 \<bind> (\<lambda>g. containsPoint g [NaN, Fin False 0]) = Some True \<and>
   map_option (\<lambda>g. within_bounds g [NaN, Fin False 0]) grid3 = Some False"
proof -
  have "containsPoint g3 [NaN, Fin False 0] = Some True"
    by (simp add: g3_def loop_eval sval_def)
  moreover have "\<not> within_bounds g3 [NaN, Fin False 0]"
    by (simp add: within_bounds_def g3_def upt_eval)
  ultimately show ?thesis
    by (simp add: grid3_eq)
qed

text \<open>
  \<^bold>\<open>C9.\<close> \<^verbatim>\<open>rasterize\<close> is idempotent: when it succeeds on a grid, a second call on
  the resulting grid succeeds and leaves every member as it is (the derived members
  \<^verbatim>\<open>stride\<close>, \<^verbatim>\<open>strideinv\<close>, \<^verbatim>\<open>raster\<close>, \<^verbatim>\<open>cumN\<close> and \<^verbatim>\<open>nodeCount\<close> among
  them).
\<close>

theorem rasterize_idempotent:
  assumes "sized g" and "rasterize g = Some g'"
  shows "rasterize g' = Some g'"
proof -
  have D: "0 < unat (DIM g)" and g': "g' = rasterized g"
    using rasterize_SomeD [OF assms(2,1)] by simp_all
  have "sized g'"
    using assms(1) by (simp add: g' sized_rasterized)
  moreover have "0 < unat (DIM g')"
    using D by (simp add: g' rasterized_def)
  ultimately have "rasterize g' = Some (rasterized g')"
    by (rule rasterize_eq)
  then show ?thesis
    by (simp add: g' rasterized_idem)
qed

theorem rasterize_idempotent_witness:
  "sized cfg3 \<and> rasterize cfg3 = Some g3 \<and> rasterize g3 = Some g3"
  using rasterize_idempotent [OF sized_cfg3 rasterize_cfg3] sized_cfg3 rasterize_cfg3
  by simp

text \<open>
  \<^bold>\<open>C10.\<close> The round trip in the other direction, from a dimension index within the
  node counts to the flat index and back, holds when the number of nodes, the product
  of the node counts, does not exceed \<open>2^32\<close>. Beyond that the flat index wraps around
  and two dimension indices share it: on the grid with 65536 by 65537 nodes the index
  \<open>[0, 65536]\<close> has the flat index \<open>65536 * 65536 = 2^32 = 0\<close>, which converts back to
  \<open>[0, 0]\<close>.
\<close>

theorem dim_roundtrip:
  assumes "sized g0" and "rasterize g0 = Some g"
    and "list_all2 (<) idx (N g)"
    and "prod_list (map unat (N g)) \<le> 2 ^ 32"
  shows "convertIndex g idx \<bind> convertIndex_flat g = Some idx"
proof -
  have D: "0 < unat (DIM g0)" and g: "g = rasterized g0"
    using rasterize_SomeD [OF assms(2,1)] by simp_all
  let ?ns = "map unat (N g0)"
  let ?ds = "map unat idx"
  have idxN: "list_all2 (<) idx (N g0)"
    using assms(3) by (simp add: g rasterized_def)
  have len: "length (N g0) = unat (DIM g0)" "length idx = unat (DIM g0)"
    using assms(1) list_all2_lengthD [OF idxN] by (simp_all add: sized_def)
  have lt: "\<forall>d<unat (DIM g0). idx ! d < N g0 ! d"
    using idxN len by (simp add: list_all2_conv_all_nth)
  have all2: "list_all2 (<) ?ds ?ns"
    using len lt by (simp add: list_all2_conv_all_nth word_less_nat_alt)
  have nz: "0 \<notin> set (N g0)"
  proof
    assume "0 \<in> set (N g0)"
    then obtain d where "d < unat (DIM g0)" "N g0 ! d = 0"
      using len by (metis in_set_conv_nth)
    then show False using lt by auto
  qed
  have "horner ?ns ?ds < prod_list ?ns"
    using all2 by (rule horner_less)
  also have "\<dots> \<le> 2 ^ 32"
    using assms(4) by (simp add: g rasterized_def)
  finally have small: "horner ?ns ?ds < 2 ^ 32" .
  have "horner (N g0) idx = horner (map of_nat ?ns) (map of_nat ?ds)"
    by (simp only: map_of_nat_unat)
  also have "\<dots> = of_nat (horner ?ns ?ds)"
    by (rule horner_of_nat)
  finally have h: "horner (N g0) idx = of_nat (horner ?ns ?ds)" .
  have u: "unat (of_nat (horner ?ns ?ds) :: uint) = horner ?ns ?ds"
    using small by (simp add: unat_of_nat)
  have "convertIndex g idx = Some (of_nat (horner ?ns ?ds))"
    unfolding g h [symmetric] using assms(1) D len(2) by (rule convertIndex_rasterized)
  moreover have "convertIndex_flat g (of_nat (horner ?ns ?ds)) = Some (map of_nat (digits ?ns (horner ?ns ?ds)))"
    unfolding g using convertIndex_flat_rasterized [OF assms(1) nz, of "of_nat (horner ?ns ?ds)"]
    by (simp only: u)
  moreover have "digits ?ns (horner ?ns ?ds) = ?ds"
    using all2 by (rule digits_horner)
  ultimately show ?thesis by simp
qed

theorem dim_roundtrip_witness:
  "sized cfg3 \<and> rasterize cfg3 = Some g3 \<and> list_all2 (<) [1, 1] (N g3) \<and>
   prod_list (map unat (N g3)) \<le> 2 ^ 32 \<and>
   convertIndex g3 [1, 1] \<bind> convertIndex_flat g3 = Some [1, 1]"
proof -
  have "list_all2 (<) [1, 1] (N g3)" and "prod_list (map unat (N g3)) \<le> 2 ^ 32"
    by (simp_all add: g3_def)
  then show ?thesis
    using dim_roundtrip [OF sized_cfg3 rasterize_cfg3, of "[1, 1]"] sized_cfg3 rasterize_cfg3
    by simp
qed

theorem dim_roundtrip_counterexample:
  "list_all2 (<) [0, 65536] [65536, 65537 :: uint] \<and>
   (do { g \<leftarrow> make_grid 2 [65536, 65537] [Fin False 0, Fin False 0] [Fin False 1, Fin False 1];
         flat \<leftarrow> convertIndex g [0, 65536];
         convertIndex_flat g flat }) = Some [0, 0]"
proof -
  let ?c = "configured 2 [65536, 65537] [Fin False 0, Fin False 0] [Fin False 1, Fin False 1]"
  have mk: "make_grid 2 [65536, 65537] [Fin False 0, Fin False 0] [Fin False 1, Fin False 1]
            = Some (rasterized ?c)"
    by (rule make_grid_eq) simp_all
  have sz: "sized ?c"
    by (simp add: sized_configured)
  have "convertIndex (rasterized ?c) [0, 65536] = Some (horner (N ?c) [0, 65536])"
    using sz by (rule convertIndex_rasterized) (simp_all add: configured_def)
  then have to_flat: "convertIndex (rasterized ?c) [0, 65536] = Some 0"
    by (simp add: configured_def)
  have "convertIndex_flat (rasterized ?c) 0 = Some (map of_nat (digits (map unat (N ?c)) (unat (0 :: uint))))"
    using sz by (rule convertIndex_flat_rasterized) (simp add: configured_def)
  then have "convertIndex_flat (rasterized ?c) 0 = Some [0, 0]"
    by (simp add: configured_def)
  then show ?thesis
    using mk to_flat by (simp add: word_less_nat_alt)
qed

end
